theory Spec2Isabelle
  imports Complex_Main "HOL-Library.Word" "HOL-Library.Monad_Syntax"
begin

unbundle bit_operations_syntax

chapter \<open>neural_surface.cu: surface sampling and training-target synthesis\<close>

section \<open>Numbers and buffers\<close>

type_synonym u32 = "32 word"

text \<open>
  The content of a four-byte \<^verbatim>\<open>float\<close> slot, as IEEE-754 binary32 lays it out:
  one sign bit (bit 31), eight exponent bits (bits 30..23) and 23 fraction bits.
\<close>

record float32 =
  sign :: bool
  exponent :: "8 word"
  fraction :: "23 word"

text \<open>
  \<^verbatim>\<open>*((float*) &faceId)\<close> reads the four bytes of an unsigned integer as a float
  (lines 206 and 750); \<^verbatim>\<open>*((uint32_t*) &slot)\<close> reads them back (lines 227 and 248).
  Neither is a numeric conversion.
\<close>

definition uint_as_float :: "u32 \<Rightarrow> float32" where
  "uint_as_float w =
     \<lparr>sign = bit w 31, exponent = ucast (drop_bit 23 w), fraction = ucast w\<rparr>"

definition float_as_uint :: "float32 \<Rightarrow> u32" where
  "float_as_uint f =
     push_bit 31 (of_bool (sign f)) OR push_bit 23 (ucast (exponent f)) OR ucast (fraction f)"

text \<open>
  The number a finite binary32 pattern denotes: subnormal when the exponent field is 0,
  normal otherwise. Both cases are written over the common denominator \<open>2 ^ 149\<close>.
  (Exponent field 255, the infinities and NaNs, denotes no number; no definition below
  applies \<open>valof\<close> to such a pattern.)
\<close>

definition valof :: "float32 \<Rightarrow> real" where
  "valof f = (if sign f then - 1 else 1) *
     (if exponent f = 0 then real (unat (fraction f)) / 2 ^ 149
      else real (2 ^ 23 + unat (fraction f)) * 2 ^ (unat (exponent f) - 1) / 2 ^ 149)"

section \<open>Single-precision arithmetic\<close>

text \<open>
  The source computes in \<^verbatim>\<open>float\<close>. A finite float is modelled as the real number it
  denotes. In the sampler, the face areas, the CDF and the loss accumulator every
  arithmetic operation is the exact operation followed by the rounding of IEEE 754
  binary32: to the nearest representable number, ties to the one with an even
  significand, each operation on its own (no fused multiply-add). (The two zeros are one
  number here; nothing below depends on the sign of a zero.)

  \<open>ilog2 n\<close> is the position of the leading bit of a positive integer \<open>n\<close>, and
  \<open>binade x\<close> the exponent \<open>e\<close> with \<open>2 ^ e \<le> x < 2 ^ (e + 1)\<close> of a positive \<open>x\<close>.
\<close>

function ilog2 :: "int \<Rightarrow> int" where
  "ilog2 n = (if n < 2 then 0 else 1 + ilog2 (n div 2))"
  by auto

termination
  by (relation "measure nat") auto

declare ilog2.simps [simp del]

definition binade :: "real \<Rightarrow> int" where
  "binade x = (if 1 \<le> x then ilog2 \<lfloor>x\<rfloor> else - (1 + ilog2 (\<lceil>1 / x\<rceil> - 1)))"

text \<open>Rounding to the nearest integer, a tie to the even one.\<close>

definition round_even :: "real \<Rightarrow> int" where
  "round_even q =
     (let f = \<lfloor>q\<rfloor>; d = q - of_int f
      in if d < 1 / 2 then f else if 1 / 2 < d then f + 1 else if even f then f else f + 1)"

text \<open>
  Around \<open>x\<close> the binary32 numbers are the multiples of \<open>2 ^ ulp_exp x\<close>: 24 significant
  bits in the normal range, and multiples of \<open>2 ^ - 149\<close> below \<open>2 ^ - 126\<close>, the
  subnormal range. \<open>round32\<close> is the rounding with an exponent range unbounded above.
\<close>

definition ulp_exp :: "real \<Rightarrow> int" where
  "ulp_exp x = max (binade \<bar>x\<bar>) (- 126) - 23"

definition round32 :: "real \<Rightarrow> real" where
  "round32 x = of_int (round_even (x / 2 powi ulp_exp x)) * 2 powi ulp_exp x"

text \<open>
  A single-precision value with the special values of IEEE 754, and the rounding \<open>fl\<close>
  of an exact result into it: a result that rounds beyond \<open>FLT_MAX\<close> overflows to an
  infinity.
\<close>

datatype ieee = Finite real | PlusInf | MinusInf | NaN

definition FLT_MAX :: real where
  "FLT_MAX = (2 ^ 24 - 1) * 2 ^ 104"

definition fl :: "real \<Rightarrow> ieee" where
  "fl x = (let y = round32 x
           in if FLT_MAX < y then PlusInf else if y < - FLT_MAX then MinusInf else Finite y)"

text \<open>The operations \<^verbatim>\<open>-a\<close>, \<^verbatim>\<open>a + b\<close>, \<^verbatim>\<open>a - b\<close>, \<^verbatim>\<open>a * b\<close>, \<^verbatim>\<open>a / b\<close> and \<^verbatim>\<open>sqrt(a)\<close> on floats.\<close>

fun fneg :: "ieee \<Rightarrow> ieee" where
  "fneg (Finite a) = Finite (- a)"
| "fneg PlusInf = MinusInf"
| "fneg MinusInf = PlusInf"
| "fneg NaN = NaN"

fun fadd :: "ieee \<Rightarrow> ieee \<Rightarrow> ieee" where
  "fadd NaN _ = NaN"
| "fadd _ NaN = NaN"
| "fadd (Finite a) (Finite b) = fl (a + b)"
| "fadd PlusInf MinusInf = NaN"
| "fadd MinusInf PlusInf = NaN"
| "fadd PlusInf _ = PlusInf"
| "fadd _ PlusInf = PlusInf"
| "fadd MinusInf _ = MinusInf"
| "fadd _ MinusInf = MinusInf"

definition fsub :: "ieee \<Rightarrow> ieee \<Rightarrow> ieee" where
  "fsub a b = fadd a (fneg b)"

fun fmul :: "ieee \<Rightarrow> ieee \<Rightarrow> ieee" where
  "fmul NaN _ = NaN"
| "fmul _ NaN = NaN"
| "fmul (Finite a) (Finite b) = fl (a * b)"
| "fmul (Finite a) b = (if a = 0 then NaN else if 0 < a then b else fneg b)"
| "fmul a (Finite b) = (if b = 0 then NaN else if 0 < b then a else fneg a)"
| "fmul a b = (if a = b then PlusInf else MinusInf)"

text \<open>
  A division by zero raises no error: it gives an infinity, or NaN for \<open>0 / 0\<close>.
\<close>

fun fdiv :: "ieee \<Rightarrow> ieee \<Rightarrow> ieee" where
  "fdiv NaN _ = NaN"
| "fdiv _ NaN = NaN"
| "fdiv (Finite a) (Finite b) =
     (if b \<noteq> 0 then fl (a / b)
      else if a = 0 then NaN
      else if 0 < a then PlusInf else MinusInf)"
| "fdiv (Finite a) b = Finite 0"
| "fdiv a (Finite b) = (if 0 \<le> b then a else fneg a)"
| "fdiv a b = NaN"

fun fsqrt :: "ieee \<Rightarrow> ieee" where
  "fsqrt (Finite a) = (if a < 0 then NaN else fl (sqrt a))"
| "fsqrt PlusInf = PlusInf"
| "fsqrt MinusInf = NaN"
| "fsqrt NaN = NaN"

text \<open>
  The numeric conversion \<^verbatim>\<open>(float) n\<close> of an unsigned integer (lines 205 and 230): exact
  below \<open>2 ^ 24\<close>, rounded above.
\<close>

definition uint_to_float_value :: "u32 \<Rightarrow> real" where
  "uint_to_float_value w = round32 (real (unat w))"

section \<open>Arrays\<close>

text \<open>
  Device and host arrays are lists. The source indexes raw pointers and
  \<^verbatim>\<open>std::vector::operator[]\<close> without a check: an access outside the array is undefined
  behaviour, which the model makes the value \<open>None\<close>. Kernel indices are computed in
  \<^verbatim>\<open>int\<close>; the model computes them in \<open>int\<close> without wrap-around and counts an index
  above \<open>INT_MAX\<close> (signed overflow in the source) as undefined too.
\<close>

definition INT_MAX :: int where
  "INT_MAX = 2 ^ 31 - 1"

definition in_bounds :: "'a list \<Rightarrow> int \<Rightarrow> bool" where
  "in_bounds xs i \<longleftrightarrow> 0 \<le> i \<and> i \<le> INT_MAX \<and> nat i < length xs"

definition rd :: "'a list \<Rightarrow> int \<Rightarrow> 'a option" where
  "rd xs i = (if in_bounds xs i then Some (xs ! nat i) else None)"

definition wr :: "'a list \<Rightarrow> int \<Rightarrow> 'a \<Rightarrow> 'a list option" where
  "wr xs i v = (if in_bounds xs i then Some (xs[nat i := v]) else None)"

definition N_INPUT_DIMS :: nat where
  "N_INPUT_DIMS = 3"

definition N_OUTPUT_DIMS :: nat where
  "N_OUTPUT_DIMS = 6"

section \<open>Data model\<close>

text \<open>\<^verbatim>\<open>tinyobj::index_t\<close>: the three indices of one face corner; \<open>-1\<close> means absent.\<close>

record index_t =
  vertex_index :: int
  normal_index :: int
  texcoord_index :: int

text \<open>
  \<^verbatim>\<open>struct Texture\<close> and \<^verbatim>\<open>struct Material\<close> (lines 64-78). The texture object is an opaque
  device handle; the resource descriptors and the image memory behind it are left out.
\<close>

record Texture =
  valid :: bool
  texture :: nat
  width :: int
  height :: int

record Material =
  diffuse :: "real \<times> real \<times> real"
  map_Kd :: Texture
  map_Bump :: Texture

text \<open>
  One row of the training batch (\<open>N_INPUT_DIMS\<close> float slots). Slot 0 is only ever read
  and written through the bit reinterpretation, so the model keeps its bits; slots 1 and 2
  hold the barycentric weights and are kept as the numbers they denote. The batch is the list of its rows, so that row
  \<open>idx\<close> stands for the slots \<open>idx * N_INPUT_DIMS + 0..2\<close>.
\<close>

type_synonym surface_point = "float32 \<times> real \<times> real"

text \<open>
  Row \<open>idx\<close> lies inside the batch when its last slot \<open>idx * N_INPUT_DIMS + 2\<close> does, an
  index the kernels compute in \<^verbatim>\<open>int\<close>.
\<close>

definition row_in_bounds :: "surface_point list \<Rightarrow> nat \<Rightarrow> bool" where
  "row_in_bounds batch idx \<longleftrightarrow>
     idx < length batch \<and> int idx * int N_INPUT_DIMS + 2 \<le> INT_MAX"

definition rd_row :: "surface_point list \<Rightarrow> nat \<Rightarrow> surface_point option" where
  "rd_row batch idx = (if row_in_bounds batch idx then Some (batch ! idx) else None)"

definition wr_row :: "surface_point list \<Rightarrow> nat \<Rightarrow> surface_point \<Rightarrow> surface_point list option" where
  "wr_row batch idx row = (if row_in_bounds batch idx then Some (batch[idx := row]) else None)"

section \<open>Surface Point Sampler (generate_face_positions, lines 180-215)\<close>

text \<open>\<^verbatim>\<open>fmodf(x, 1.0f)\<close>: the fractional part, with the sign of \<open>x\<close>.\<close>

definition fmodf1 :: "real \<Rightarrow> real" where
  "fmodf1 x = (if 0 \<le> x then x - of_int \<lfloor>x\<rfloor> else x - of_int \<lceil>x\<rceil>)"

text \<open>\<^verbatim>\<open>(uint32_t) x\<close> for a float \<open>x\<close>: truncation towards zero.\<close>

definition float_to_uint :: "real \<Rightarrow> u32" where
  "float_to_uint x = word_of_int (if 0 \<le> x then \<lfloor>x\<rfloor> else \<lceil>x\<rceil>)"

text \<open>
  One thread of the kernel. \<open>curand_uniform\<close> is the generator of the cuRAND library
  (not part of the source): it returns a draw, a float, and the advanced state. The
  thread draws three times from its own state \<open>crs[idx]\<close>, in the order of lines 191, 210
  and 211, and writes its row of \<open>result\<close>. Line 205 converts \<open>n_faces\<close> to \<^verbatim>\<open>float\<close> and
  rounds the product; lines 213 and 214 round the square root (of a \<^verbatim>\<open>float\<close>, so the
  single-precision one), the difference and the product, each on its own. The parameters \<open>indices\<close>, \<open>vertices\<close> and \<open>cdf\<close> are unused by
  the kernel and left out.
\<close>

definition generate_face_positions ::
  "('s \<Rightarrow> real \<times> 's) \<Rightarrow> nat \<Rightarrow> u32 \<Rightarrow> 's list \<Rightarrow> surface_point list \<Rightarrow> nat
     \<Rightarrow> ('s list \<times> surface_point list) option" where
  "generate_face_positions curand_uniform n_elements n_faces crs result idx =
     (if idx \<ge> n_elements then Some (crs, result)
      else do {
        st0 \<leftarrow> rd crs (int idx);
        let (u, st1) = curand_uniform st0;
        let r = fmodf1 u;
        let faceId = float_to_uint (round32 (r * uint_to_float_value n_faces));
        let (r1, st2) = curand_uniform st1;
        let (r2, st3) = curand_uniform st2;
        crs' \<leftarrow> wr crs (int idx) st3;
        result' \<leftarrow> wr_row result idx
          (uint_as_float faceId,
           round32 (1 - round32 (sqrt r1)),
           round32 (round32 (sqrt r1) * round32 (1 - r2)));
        Some (crs', result')
      })"

text \<open>
  A generator for examples: it replays a given list of draws, its state being the number
  of draws made so far.
\<close>

definition replay :: "real list \<Rightarrow> nat \<Rightarrow> real \<times> nat" where
  "replay draws s = (if s < length draws then draws ! s else 0, Suc s)"

section \<open>Texture-Backed Target Resolver (generate_training_target, lines 235-311)\<close>

text \<open>
  Three consecutive stores \<^verbatim>\<open>result[base + 0..2] = ...\<close>.
\<close>

definition store3 :: "real list \<Rightarrow> int \<Rightarrow> real \<Rightarrow> real \<Rightarrow> real \<Rightarrow> real list option" where
  "store3 result base a b c = do {
     r0 \<leftarrow> wr result (base + 0) a;
     r1 \<leftarrow> wr r0 (base + 1) b;
     wr r1 (base + 2) c
   }"

text \<open>
  Line 248 decodes the face id into an \<^verbatim>\<open>int\<close>: the slot's bits, read as unsigned and
  converted to signed.
\<close>

definition decode_faceId :: "float32 \<Rightarrow> int" where
  "decode_faceId slot = sint (float_as_uint slot)"

text \<open>
  The guard of line 249, \<^verbatim>\<open>faceId < 0 || faceId >= n_faces\<close>: the first comparison is
  signed, the second converts \<open>faceId\<close> to unsigned, since \<open>n_faces\<close> is \<^verbatim>\<open>uint32_t\<close>.
\<close>

definition faceId_rejected :: "int \<Rightarrow> u32 \<Rightarrow> bool" where
  "faceId_rejected faceId n_faces \<longleftrightarrow> faceId < 0 \<or> n_faces \<le> (word_of_int faceId :: u32)"

text \<open>
  Lines 260-273: the interpolated texture coordinate of a sample on face \<open>faceId\<close>. The
  interpolation is written with exact sums and products; the statements about the
  resolver name the coordinate it yields and do not depend on its value.
\<close>

definition uv_interp :: "index_t list \<Rightarrow> real list \<Rightarrow> int \<Rightarrow> real \<Rightarrow> real \<Rightarrow> (real \<times> real) option" where
  "uv_interp indices texcoords faceId w1 w2 = do {
     c1 \<leftarrow> rd indices (3 * faceId + 0);
     c2 \<leftarrow> rd indices (3 * faceId + 1);
     c3 \<leftarrow> rd indices (3 * faceId + 2);
     let iv1 = texcoord_index c1;
     let iv2 = texcoord_index c2;
     let iv3 = texcoord_index c3;
     let w3 = 1 - w1 - w2;
     uv1x \<leftarrow> rd texcoords (2 * iv1 + 0);
     uv1y \<leftarrow> rd texcoords (2 * iv1 + 1);
     uv2x \<leftarrow> rd texcoords (2 * iv2 + 0);
     uv2y \<leftarrow> rd texcoords (2 * iv2 + 1);
     uv3x \<leftarrow> rd texcoords (2 * iv3 + 0);
     uv3y \<leftarrow> rd texcoords (2 * iv3 + 1);
     Some (w1 * uv1x + w2 * uv2x + w3 * uv3x, w1 * uv1y + w2 * uv2y + w3 * uv3y)
   }"

text \<open>
  Lines 286-309: the two channel groups of one material. \<open>tex2D\<close> is the device's
  texture fetch (not part of the source): it maps a texture handle and a coordinate to
  a \<^verbatim>\<open>float4\<close>.
\<close>

definition write_channels ::
  "(nat \<Rightarrow> real \<Rightarrow> real \<Rightarrow> real \<times> real \<times> real \<times> real) \<Rightarrow> Material \<Rightarrow> real \<times> real
     \<Rightarrow> real list \<Rightarrow> int \<Rightarrow> real list option" where
  "write_channels tex2D m uv result output_idx = do {
     r1 \<leftarrow> (if valid (map_Kd m) then
              (let texture_diffuse = texture (map_Kd m);
                   (x, y, z, w) = tex2D texture_diffuse (fst uv) (1 - snd uv)
               in store3 result (output_idx + 0) x y z)
            else
              (let (d0, d1, d2) = diffuse m
               in store3 result (output_idx + 0) d0 d1 d2));
     (if valid (map_Bump m) then
        (let texture_bump = texture (map_Bump m);
             (x, y, z, w) = tex2D texture_bump (fst uv) (1 - snd uv)
         in store3 r1 (output_idx + 3) x y z)
      else store3 r1 (output_idx + 3) 0.5 0.5 1)
   }"

text \<open>
  One thread of the kernel. It reads its row of the training batch and writes the
  \<open>N_OUTPUT_DIMS\<close> slots of \<open>result\<close> from \<open>idx * N_OUTPUT_DIMS\<close> on.
\<close>

definition generate_training_target ::
  "(nat \<Rightarrow> real \<Rightarrow> real \<Rightarrow> real \<times> real \<times> real \<times> real) \<Rightarrow> nat \<Rightarrow> u32 \<Rightarrow> Material list \<Rightarrow> int list
     \<Rightarrow> surface_point list \<Rightarrow> index_t list \<Rightarrow> real list \<Rightarrow> real list \<Rightarrow> nat
     \<Rightarrow> real list option" where
  "generate_training_target tex2D n_elements n_faces materials material_ids training_batch
       indices texcoords result idx =
     (if idx \<ge> n_elements then Some result
      else do {
        let output_idx = int idx * int N_OUTPUT_DIMS;
        (slot, w1, w2) \<leftarrow> rd_row training_batch idx;
        let faceId = decode_faceId slot;
        if faceId_rejected faceId n_faces then do {
          r \<leftarrow> store3 result (output_idx + 0) 0 0 0;
          store3 r (output_idx + 3) 0 0 0
        } else do {
          uv \<leftarrow> uv_interp indices texcoords faceId w1 w2;
          material_id \<leftarrow> rd material_ids faceId;
          m \<leftarrow> rd materials material_id;
          write_channels tex2D m uv result output_idx
        }
      })"

section \<open>Mesh Adjacency Builder (main, lines 594-673)\<close>

text \<open>
  Host vectors indexed by an unsigned value (\<^verbatim>\<open>uint32_t\<close> or \<^verbatim>\<open>size_t\<close>): again an
  access outside the vector is undefined behaviour, the value \<open>None\<close>.
\<close>

definition vec_get :: "'a list \<Rightarrow> nat \<Rightarrow> 'a option" where
  "vec_get xs i = (if i < length xs then Some (xs ! i) else None)"

text \<open>The marker \<^verbatim>\<open>0xFFFFFFFF\<close> of lines 621, 636 and 651: no second face.\<close>

definition SENTINEL :: u32 where
  "SENTINEL = 0xFFFFFFFF"

text \<open>
  \<^verbatim>\<open>std::find(row.begin(), row.end(), x)\<close> as a position: the index of the first element
  equal to \<open>x\<close>, or \<open>length row\<close> (the end iterator) when there is none. The search runs
  over every element of the row, whatever it stands for.
\<close>

definition std_find :: "'a list \<Rightarrow> 'a \<Rightarrow> nat" where
  "std_find row x = length (takeWhile (\<lambda>y. y \<noteq> x) row)"

text \<open>\<^verbatim>\<open>rows[v].push_back(...)\<close>, for one or several values in a row.\<close>

definition push_back_at :: "u32 list list \<Rightarrow> u32 \<Rightarrow> u32 list \<Rightarrow> u32 list list option" where
  "push_back_at rows v xs =
     (if unat v < length rows then Some (rows[unat v := rows ! unat v @ xs]) else None)"

text \<open>
  One of the three edge blocks of the loop body (lines 612-627, 629-642, 644-657) for the
  endpoints \<open>a\<close> and \<open>b\<close> of face \<open>i\<close>. \<open>n_vertices\<close> is an \<^verbatim>\<open>int\<close> and \<open>i\<close> a
  \<^verbatim>\<open>uint32_t\<close>, so \<^verbatim>\<open>n_vertices + i\<close> is computed in 32-bit unsigned arithmetic.
\<close>

definition add_edge :: "int \<Rightarrow> u32 \<Rightarrow> u32 list list \<Rightarrow> u32 \<Rightarrow> u32 \<Rightarrow> u32 list list option" where
  "add_edge n_vertices i adjEdges a b =
     (let vmin = min a b; vmax = max a b in
      if unat vmin < length adjEdges then
        (let row = adjEdges ! unat vmin;
             it = (if row = [] then length row else std_find row vmax) in
         if it = length row then
           push_back_at adjEdges vmin [vmax, word_of_int n_vertices + i, SENTINEL]
         else
           (let ind = it + 2 in
            if ind < length row
            then Some (adjEdges[unat vmin := row[ind := word_of_int n_vertices + i]])
            else None))
      else None)"

text \<open>
  The body of the loop over the faces (lines 603-657), for face \<open>i\<close>. The corner index
  \<^verbatim>\<open>3 * i + k\<close> is computed in 32-bit unsigned arithmetic, as \<open>i\<close> is a \<^verbatim>\<open>uint32_t\<close>.
\<close>

definition add_face ::
  "int \<Rightarrow> index_t list \<Rightarrow> u32 list list \<times> u32 list list \<Rightarrow> u32
     \<Rightarrow> (u32 list list \<times> u32 list list) option" where
  "add_face n_vertices indices st i =
     (let (adjFaces, adjEdges) = st in do {
        c0 \<leftarrow> vec_get indices (unat (3 * i + 0));
        c1 \<leftarrow> vec_get indices (unat (3 * i + 1));
        c2 \<leftarrow> vec_get indices (unat (3 * i + 2));
        let v0 = (word_of_int (vertex_index c0) :: u32);
        let v1 = (word_of_int (vertex_index c1) :: u32);
        let v2 = (word_of_int (vertex_index c2) :: u32);
        f0 \<leftarrow> push_back_at adjFaces v0 [i];
        f1 \<leftarrow> push_back_at f0 v1 [i];
        f2 \<leftarrow> push_back_at f1 v2 [i];
        e0 \<leftarrow> add_edge n_vertices i adjEdges v0 v1;
        e1 \<leftarrow> add_edge n_vertices i e0 v0 v2;
        e2 \<leftarrow> add_edge n_vertices i e1 v1 v2;
        Some (f2, e2)
      })"

text \<open>
  \<^verbatim>\<open>for (uint32_t i = 0; i < n_faces; i++)\<close>, over the face numbers still to do.
\<close>

fun adjacency_loop ::
  "int \<Rightarrow> index_t list \<Rightarrow> nat list \<Rightarrow> u32 list list \<times> u32 list list
     \<Rightarrow> (u32 list list \<times> u32 list list) option" where
  "adjacency_loop n_vertices indices [] st = Some st"
| "adjacency_loop n_vertices indices (i # rest) st =
     (case add_face n_vertices indices st (of_nat i) of
        None \<Rightarrow> None
      | Some st' \<Rightarrow> adjacency_loop n_vertices indices rest st')"

text \<open>
  Lines 598-661: both tables start with \<open>n_vertices\<close> empty rows;
  \<open>n_faces = n_indices / 3\<close> (line 562). The result is \<open>(adjFaces, adjEdges)\<close>.
\<close>

definition build_adjacency ::
  "int \<Rightarrow> index_t list \<Rightarrow> (u32 list list \<times> u32 list list) option" where
  "build_adjacency n_vertices indices =
     adjacency_loop n_vertices indices [0 ..< length indices div 3]
       (replicate (nat n_vertices) [], replicate (nat n_vertices) [])"

text \<open>
  Lines 663-673: each row is appended to \<open>meta\<close> behind its length, and the position
  where it starts is its entry of \<open>offsets\<close>; the face rows come first, the edge rows second.
\<close>

fun serialize_rows :: "u32 list list \<Rightarrow> u32 list \<Rightarrow> u32 list \<times> u32 list" where
  "serialize_rows [] meta = ([], meta)"
| "serialize_rows (row # rows) meta =
     (let (offsets, meta') = serialize_rows rows (meta @ [of_nat (length row)] @ row)
      in (of_nat (length meta) # offsets, meta'))"

definition serialize :: "u32 list list \<times> u32 list list \<Rightarrow> u32 list \<times> u32 list" where
  "serialize st =
     (let (adjFaces, adjEdges) = st;
          (offsets_faces, meta_faces) = serialize_rows adjFaces [];
          (offsets_edges, meta) = serialize_rows adjEdges meta_faces
      in (offsets_faces @ offsets_edges, meta))"

text \<open>
  A row of \<open>adjEdges\<close> is filled three values at a time (lines 619-621): the other
  endpoint, the first face and the second face or the sentinel. \<open>edge_records\<close> reads a
  row back as these records.
\<close>

fun edge_records :: "u32 list \<Rightarrow> (u32 \<times> u32 \<times> u32) list" where
  "edge_records (v # fa # fb # rest) = (v, fa, fb) # edge_records rest"
| "edge_records _ = []"

text \<open>
  The record of the undirected edge between \<open>a\<close> and \<open>b\<close>, found the way the builder
  finds it: in the row of the smaller endpoint, at the first position holding the larger.
\<close>

definition lookup_edge :: "u32 list list \<Rightarrow> u32 \<Rightarrow> u32 \<Rightarrow> (u32 \<times> u32 \<times> u32) option" where
  "lookup_edge adjEdges a b =
     (let vmin = min a b; vmax = max a b in
      if unat vmin < length adjEdges then
        (let row = adjEdges ! unat vmin; it = std_find row vmax in
         if it + 2 < length row then Some (row ! it, row ! (it + 1), row ! (it + 2)) else None)
      else None)"

section \<open>Face-Area CDF (main, lines 504-592)\<close>

text \<open>
  The vector operations of the tiny-cuda-nn headers (not part of the source), component
  by component in single precision: every difference, product and sum is rounded.
\<close>

type_synonym vec3 = "ieee \<times> ieee \<times> ieee"

fun vsub :: "vec3 \<Rightarrow> vec3 \<Rightarrow> vec3" where
  "vsub (a1, a2, a3) (b1, b2, b3) = (fsub a1 b1, fsub a2 b2, fsub a3 b3)"

fun cross :: "vec3 \<Rightarrow> vec3 \<Rightarrow> vec3" where
  "cross (a1, a2, a3) (b1, b2, b3) =
     (fsub (fmul a2 b3) (fmul a3 b2),
      fsub (fmul a3 b1) (fmul a1 b3),
      fsub (fmul a1 b2) (fmul a2 b1))"

fun vlength :: "vec3 \<Rightarrow> ieee" where
  "vlength (a1, a2, a3) = fsqrt (fadd (fadd (fmul a1 a1) (fmul a2 a2)) (fmul a3 a3))"

text \<open>
  \<^verbatim>\<open>attrib.vertices[3 * mesh.indices[k].vertex_index + 0..2]\<close> (lines 569-579). The
  coordinates the loader delivers are finite floats.
\<close>

definition corner :: "real list \<Rightarrow> index_t list \<Rightarrow> nat \<Rightarrow> vec3 option" where
  "corner vertices indices k = do {
     c \<leftarrow> vec_get indices k;
     x \<leftarrow> rd vertices (3 * vertex_index c + 0);
     y \<leftarrow> rd vertices (3 * vertex_index c + 1);
     z \<leftarrow> rd vertices (3 * vertex_index c + 2);
     Some (Finite x, Finite y, Finite z)
   }"

text \<open>Line 581: half the length of the cross product of two edge vectors.\<close>

definition face_area :: "vec3 \<Rightarrow> vec3 \<Rightarrow> vec3 \<Rightarrow> ieee" where
  "face_area v1 v2 v3 = fmul (Finite (1 / 2)) (vlength (cross (vsub v2 v1) (vsub v3 v1)))"

text \<open>
  Lines 566-584: the areas of the faces still to do. \<open>area_sum\<close> adds them up in the
  order of the faces, starting from 0 (lines 567 and 583).
\<close>

fun histogram_loop :: "real list \<Rightarrow> index_t list \<Rightarrow> nat list \<Rightarrow> ieee list option" where
  "histogram_loop vertices indices [] = Some []"
| "histogram_loop vertices indices (i # rest) = do {
     v1 \<leftarrow> corner vertices indices (3 * i + 0);
     v2 \<leftarrow> corner vertices indices (3 * i + 1);
     v3 \<leftarrow> corner vertices indices (3 * i + 2);
     let area = face_area v1 v2 v3;
     areas \<leftarrow> histogram_loop vertices indices rest;
     Some (area # areas)
   }"

definition area_sum_of :: "ieee list \<Rightarrow> ieee" where
  "area_sum_of histogram = foldl fadd (Finite 0) histogram"

text \<open>Lines 586-592: the running sum of \<open>histogram[i] / area_sum\<close>.\<close>

fun cdf_loop :: "ieee list \<Rightarrow> ieee \<Rightarrow> ieee \<Rightarrow> ieee list" where
  "cdf_loop [] area_sum c_prob = []"
| "cdf_loop (h # rest) area_sum c_prob =
     (let c_prob' = fadd c_prob (fdiv h area_sum) in c_prob' # cdf_loop rest area_sum c_prob')"

text \<open>
  How far \<open>main\<close> gets: it ends the process with an exit code and a message on the error
  stream, or goes on with a value.
\<close>

datatype 'a run = Exit int string | Goes_on 'a

text \<open>
  \<open>main\<close> from its start to the CDF (lines 504-592). \<open>argc\<close> is the argument count and
  \<open>ret\<close> what the mesh loader returned; \<open>vertices\<close> and \<open>indices\<close> are the loaded mesh.
  The two fatal errors of this stretch are the argument count (line 513) and the loader's
  failure (line 550).
\<close>

definition main_cdf :: "int \<Rightarrow> bool \<Rightarrow> real list \<Rightarrow> index_t list \<Rightarrow> ieee list run option" where
  "main_cdf argc ret vertices indices =
     (if argc \<noteq> 4 then
        Some (Exit 1 ''Usage: neural_surface <object_basedir> <object_filename> <sample_path>'')
      else if \<not> ret then Some (Exit 1 ''Loading .obj file failed.'')
      else do {
        let n_faces = length indices div 3;
        histogram \<leftarrow> histogram_loop vertices indices [0 ..< n_faces];
        let area_sum = area_sum_of histogram;
        Some (Goes_on (cdf_loop histogram area_sum (Finite 0)))
      })"

text \<open>
  What an area can be: a float that is not negative, or \<open>+\<infinity>\<close> or NaN when the
  computation overflowed.
\<close>

fun area_like :: "ieee \<Rightarrow> bool" where
  "area_like (Finite y) \<longleftrightarrow> 0 \<le> y \<and> round32 y = y"
| "area_like PlusInf \<longleftrightarrow> True"
| "area_like MinusInf \<longleftrightarrow> False"
| "area_like NaN \<longleftrightarrow> True"

section \<open>Training Loop Driver (trainAndEvaluate, lines 374-457)\<close>

text \<open>
  The logging state of the loop: \<open>interval\<close>, the loss accumulator \<open>tmp_loss\<close> (a float)
  and its counter, and what has been printed so far: for each \<^verbatim>\<open>Step#\<close> line the step and
  the loss it shows.
\<close>

record logging =
  interval :: nat
  tmp_loss :: ieee
  tmp_loss_counter :: nat
  printed :: "(nat \<times> ieee) list"

definition print_loss :: "nat \<Rightarrow> nat \<Rightarrow> bool" where
  "print_loss i intv \<longleftrightarrow> i mod intv = 0"

definition takes_sample :: "nat \<Rightarrow> nat \<Rightarrow> bool" where
  "takes_sample i intv \<longleftrightarrow> i mod min intv 100 = 0"

text \<open>
  One iteration \<open>i\<close> of the loop, as far as it touches the logging state (lines 387, 409-412,
  423-429 and 454-456). \<open>loss i\<close> stands for the scalar \<^verbatim>\<open>model->loss(...)\<close> of step \<open>i\<close>.
  The loss shown is \<^verbatim>\<open>tmp_loss / (float)tmp_loss_counter\<close>.
\<close>

definition loop_body :: "(nat \<Rightarrow> ieee) \<Rightarrow> logging \<Rightarrow> nat \<Rightarrow> logging" where
  "loop_body loss s i =
     (let p = print_loss i (interval s);
          s1 = (if takes_sample i (interval s)
                then s\<lparr>tmp_loss := fadd (tmp_loss s) (loss i),
                       tmp_loss_counter := tmp_loss_counter s + 1\<rparr>
                else s);
          s2 = (if p
                then s1\<lparr>printed := printed s1 @
                          [(i, fdiv (tmp_loss s1) (fl (real (tmp_loss_counter s1))))],
                        tmp_loss := Finite 0, tmp_loss_counter := 0\<rparr>
                else s1)
      in if p \<and> 0 < i \<and> interval s2 < 1000 then s2\<lparr>interval := interval s2 * 10\<rparr> else s2)"

text \<open>
  \<^verbatim>\<open>for (uint32_t i = 0; i < n_training_steps; ++i)\<close> from the initial state of lines
  374-384; \<open>train_loop loss n\<close> is the state after the steps \<open>0..n-1\<close>, which is also the
  state in which step \<open>n\<close> starts.
\<close>

definition train_loop :: "(nat \<Rightarrow> ieee) \<Rightarrow> nat \<Rightarrow> logging" where
  "train_loop loss n_training_steps =
     foldl (loop_body loss)
       \<lparr>interval = 10, tmp_loss = Finite 0, tmp_loss_counter = 0, printed = []\<rparr>
       [0 ..< n_training_steps]"

text \<open>
  The schedule in closed form, as the specification words it: 10, then 100, then 1000 and
  no further.
\<close>

definition interval_of_step :: "nat \<Rightarrow> nat" where
  "interval_of_step i = (if i \<le> 10 then 10 else if i \<le> 100 then 100 else 1000)"

text \<open>
  The steps that print, and the steps whose loss is sampled, as functions of the step
  index alone.
\<close>

definition printing :: "nat \<Rightarrow> bool" where
  "printing i \<longleftrightarrow> i = 0 \<or> i = 10 \<or> i = 100 \<or> 1000 dvd i"

definition sampled :: "nat \<Rightarrow> bool" where
  "sampled j \<longleftrightarrow> j mod min (interval_of_step j) 100 = 0"

text \<open>
  The first step after the latest print before step \<open>i\<close>: the accumulator was reset
  just before it. The window of step \<open>i\<close> are the sampled steps from there up to \<open>i\<close>
  itself.
\<close>

definition window_start :: "nat \<Rightarrow> nat" where
  "window_start i =
     (if i = 0 then 0 else if i \<le> 10 then 1 else if i \<le> 100 then 11
      else if i \<le> 1000 then 101 else (i - 1) div 1000 * 1000 + 1)"

definition window :: "nat \<Rightarrow> nat list" where
  "window i = filter sampled [window_start i ..< Suc i]"

text \<open>
  The average of a list of losses as the loop forms it: the losses added up one by one from
  0, divided by their number converted to \<^verbatim>\<open>float\<close>.
\<close>

definition average :: "ieee list \<Rightarrow> ieee" where
  "average xs = fdiv (foldl fadd (Finite 0) xs) (fl (real (length xs)))"

section \<open>What the adjacency table holds\<close>

text \<open>
  The definitions of this section are not part of the program. They say which meshes the
  builder is meant for, what its loop maintains, and what a row of \<open>adjEdges\<close> means.
\<close>

text \<open>
  The vertex a face corner names (lines 604-606 convert the \<^verbatim>\<open>int\<close> index to
  \<^verbatim>\<open>uint32_t\<close>), and the value \<^verbatim>\<open>n_vertices + i\<close> under which face \<open>i\<close> is stored in an
  edge record.
\<close>

definition face_vertex :: "index_t list \<Rightarrow> nat \<Rightarrow> u32" where
  "face_vertex indices k = word_of_int (vertex_index (indices ! k))"

definition face_code :: "int \<Rightarrow> nat \<Rightarrow> u32" where
  "face_code n_vertices i = word_of_int n_vertices + of_nat i"

text \<open>
  Face \<open>i\<close> of a mesh with \<open>nv\<close> vertices is well formed: its three corners exist, name
  vertices of the mesh, and name three different ones.
\<close>

definition face_ok :: "nat \<Rightarrow> index_t list \<Rightarrow> nat \<Rightarrow> bool" where
  "face_ok nv indices i \<longleftrightarrow>
     3 * i + 2 < length indices
   \<and> unat (face_vertex indices (3 * i)) < nv
   \<and> unat (face_vertex indices (3 * i + 1)) < nv
   \<and> unat (face_vertex indices (3 * i + 2)) < nv
   \<and> face_vertex indices (3 * i) \<noteq> face_vertex indices (3 * i + 1)
   \<and> face_vertex indices (3 * i) \<noteq> face_vertex indices (3 * i + 2)
   \<and> face_vertex indices (3 * i + 1) \<noteq> face_vertex indices (3 * i + 2)"

text \<open>
  A mesh the builder is meant for: the vertex and index counts fit the \<^verbatim>\<open>int\<close> variables
  that hold them (lines 558 and 561), and every face is well formed.
\<close>

definition mesh_ok :: "int \<Rightarrow> index_t list \<Rightarrow> bool" where
  "mesh_ok n_vertices indices \<longleftrightarrow>
     0 \<le> n_vertices \<and> n_vertices \<le> INT_MAX \<and> int (length indices) \<le> INT_MAX
   \<and> (\<forall>i < length indices div 3. face_ok (nat n_vertices) indices i)"

text \<open>
  The endpoints \<open>a'\<close>, \<open>b'\<close> name the same undirected edge as \<open>a\<close>, \<open>b\<close>: they have the
  same canonical form (smaller endpoint, larger endpoint).
\<close>

definition same_edge :: "u32 \<Rightarrow> u32 \<Rightarrow> u32 \<Rightarrow> u32 \<Rightarrow> bool" where
  "same_edge a b a' b' \<longleftrightarrow> min a' b' = min a b \<and> max a' b' = max a b"

definition face_has_edge :: "index_t list \<Rightarrow> nat \<Rightarrow> u32 \<Rightarrow> u32 \<Rightarrow> bool" where
  "face_has_edge indices i a b \<longleftrightarrow>
     same_edge (face_vertex indices (3 * i)) (face_vertex indices (3 * i + 1)) a b
   \<or> same_edge (face_vertex indices (3 * i)) (face_vertex indices (3 * i + 2)) a b
   \<or> same_edge (face_vertex indices (3 * i + 1)) (face_vertex indices (3 * i + 2)) a b"

definition face_has_vertex :: "index_t list \<Rightarrow> nat \<Rightarrow> u32 \<Rightarrow> bool" where
  "face_has_vertex indices i v \<longleftrightarrow>
     v = face_vertex indices (3 * i) \<or> v = face_vertex indices (3 * i + 1)
   \<or> v = face_vertex indices (3 * i + 2)"

text \<open>
  The invariant of one row of \<open>adjEdges\<close>, the row of vertex \<open>v\<close> in a mesh of \<open>nv\<close>
  vertices: the row is a sequence of whole records; the other endpoint of each record is
  a vertex above \<open>v\<close>; both face slots hold values that are no vertex (from \<open>nv\<close> on: a
  face code or the sentinel); and no other endpoint occurs twice.
\<close>

fun row_ok :: "nat \<Rightarrow> nat \<Rightarrow> u32 list \<Rightarrow> bool" where
  "row_ok nv v [] = True"
| "row_ok nv v (x # fa # fb # rest) =
     (v < unat x \<and> unat x < nv \<and> nv \<le> unat fa \<and> nv \<le> unat fb
      \<and> x \<notin> fst ` set (edge_records rest) \<and> row_ok nv v rest)"
| "row_ok nv v _ = False"

definition table_ok :: "nat \<Rightarrow> u32 list list \<Rightarrow> bool" where
  "table_ok nv adjEdges \<longleftrightarrow> length adjEdges = nv \<and> (\<forall>v < nv. row_ok nv v (adjEdges ! v))"

text \<open>
  What an edge block does to a row, and what that is on the row's records: a new record
  behind the others on first sight of the other endpoint \<open>x\<close>, the second face slot
  overwritten on every later sight.
\<close>

definition row_insert :: "u32 list \<Rightarrow> u32 \<Rightarrow> u32 \<Rightarrow> u32 list" where
  "row_insert row x code =
     (if std_find row x = length row then row @ [x, code, SENTINEL]
      else row[std_find row x + 2 := code])"

fun upd_records ::
  "u32 \<Rightarrow> u32 \<Rightarrow> (u32 \<times> u32 \<times> u32) list \<Rightarrow> (u32 \<times> u32 \<times> u32) list" where
  "upd_records x code [] = [(x, code, SENTINEL)]"
| "upd_records x code ((y, fa, fb) # rs) =
     (if y = x then (y, fa, code) # rs else (y, fa, fb) # upd_records x code rs)"

text \<open>
  The record of an edge after one more face with the code \<open>code\<close> has been seen on it, and
  the record of the edge between \<open>a\<close> and \<open>b\<close> after face \<open>i\<close> has been processed.
\<close>

definition visit ::
  "u32 \<Rightarrow> u32 \<Rightarrow> (u32 \<times> u32 \<times> u32) option \<Rightarrow> (u32 \<times> u32 \<times> u32) option" where
  "visit code x r =
     Some (case r of None \<Rightarrow> (x, code, SENTINEL) | Some (y, fa, fb) \<Rightarrow> (y, fa, code))"

definition visit_face ::
  "int \<Rightarrow> index_t list \<Rightarrow> u32 \<Rightarrow> u32 \<Rightarrow> (u32 \<times> u32 \<times> u32) option \<Rightarrow> nat
     \<Rightarrow> (u32 \<times> u32 \<times> u32) option" where
  "visit_face n_vertices indices a b r i =
     (if face_has_edge indices i a b then visit (face_code n_vertices i) (max a b) r else r)"

section \<open>A small scene\<close>

text \<open>
  Concrete data on which the theorems below are instantiated: a quad of two triangles
  over four vertices, one texture coordinate per vertex, a material without textures and
  one with a diffuse texture, and a texture fetch that returns the coordinate it is
  given.
\<close>

definition corner_of :: "int \<Rightarrow> index_t" where
  "corner_of v = \<lparr>vertex_index = v, normal_index = - 1, texcoord_index = v\<rparr>"

definition quad_indices :: "index_t list" where
  "quad_indices = map corner_of [0, 1, 2, 2, 1, 3]"

definition quad_vertices :: "real list" where
  "quad_vertices = [0, 0, 0, 1, 0, 0, 0, 1, 0, 1, 1, 0]"

definition quad_texcoords :: "real list" where
  "quad_texcoords = [0, 0, 1, 0, 0, 1, 1, 1]"

definition no_texture :: Texture where
  "no_texture = \<lparr>valid = False, texture = 0, width = 0, height = 0\<rparr>"

definition flat_material :: Material where
  "flat_material =
     \<lparr>diffuse = (1 / 4, 1 / 2, 3 / 4), map_Kd = no_texture, map_Bump = no_texture\<rparr>"

definition textured_material :: Material where
  "textured_material =
     \<lparr>diffuse = (1 / 4, 1 / 2, 3 / 4),
      map_Kd = \<lparr>valid = True, texture = 7, width = 2, height = 2\<rparr>,
      map_Bump = no_texture\<rparr>"

definition uv_texture :: "nat \<Rightarrow> real \<Rightarrow> real \<Rightarrow> real \<times> real \<times> real \<times> real" where
  "uv_texture t u v = (u, v, real t, 1)"

section \<open>Rounding to single precision\<close>

text \<open>
  The facts about \<open>round32\<close> the proofs below rest on: it leaves the representable numbers
  alone (the multiples \<open>m * 2 ^ k\<close> with \<open>\<bar>m\<bar> < 2 ^ 24\<close> and \<open>k \<ge> - 149\<close>), it is monotone and
  idempotent, and it moves a number by at most half a unit in the last place.
\<close>

lemma ilog2_bounds:
  "0 < n \<Longrightarrow> 2 powi ilog2 n \<le> real_of_int n \<and> real_of_int n + 1 \<le> 2 powi (ilog2 n + 1)"
proof (induction n rule: ilog2.induct)
  case (1 n)
  show ?case
  proof (cases "n < 2")
    case True
    with 1(2) have "n = 1" by simp
    then show ?thesis by (simp add: ilog2.simps)
  next
    case False
    define L where "L = ilog2 (n div 2)"
    have "0 < n div 2" using False by simp
    from 1(1) [OF False this]
    have a: "2 powi L \<le> real_of_int (n div 2)" "real_of_int (n div 2) + 1 \<le> 2 powi (L + 1)"
      by (simp_all add: L_def)
    have e: "ilog2 n = 1 + L"
      using False unfolding L_def by (subst ilog2.simps) simp
    have "2 * (n div 2) \<le> n" "n \<le> 2 * (n div 2) + 1" by linarith+
    then have "real_of_int (2 * (n div 2)) \<le> real_of_int n"
      "real_of_int n \<le> real_of_int (2 * (n div 2) + 1)"
      by (simp_all only: of_int_le_iff)
    then have d: "2 * real_of_int (n div 2) \<le> real_of_int n"
      "real_of_int n \<le> 2 * real_of_int (n div 2) + 1"
      by simp_all
    have p: "(2::real) powi (1 + L) = 2 * 2 powi L"
      "(2::real) powi (1 + L + 1) = 2 * 2 powi (L + 1)"
      by (simp_all add: power_int_add)
    show ?thesis unfolding e p using a d by linarith
  qed
qed

lemma binade_bounds:
  assumes "0 < x"
  shows "2 powi binade x \<le> x" and "x < 2 powi (binade x + 1)"
proof -
  have "2 powi binade x \<le> x \<and> x < 2 powi (binade x + 1)"
  proof (cases "1 \<le> x")
    case True
    define n where "n = \<lfloor>x\<rfloor>"
    have n: "0 < n" "real_of_int n \<le> x" "x < real_of_int n + 1"
      using True unfolding n_def by linarith+
    have b: "binade x = ilog2 n"
      using True by (simp add: binade_def n_def)
    from ilog2_bounds [OF n(1)] show ?thesis unfolding b using n by linarith
  next
    case False
    define y where "y = 1 / x"
    define m where "m = \<lceil>y\<rceil> - 1"
    define c where "c = ilog2 m"
    have y: "1 < y" using False assms by (simp add: y_def)
    have m: "0 < m" "real_of_int m < y" "y \<le> real_of_int m + 1"
      using y unfolding m_def by linarith+
    have b: "binade x = - (1 + c)"
      using False by (simp add: binade_def m_def y_def c_def)
    from ilog2_bounds [OF m(1)]
    have "2 powi c < y" "y \<le> 2 powi (c + 1)"
      unfolding c_def using m by linarith+
    then have "1 / 2 powi (c + 1) \<le> x" "x < 1 / 2 powi c"
      using assms unfolding y_def by (simp_all add: field_simps)
    moreover have "binade x = - (c + 1)" "binade x + 1 = - c"
      by (simp_all add: b)
    then have "(2::real) powi binade x = 1 / 2 powi (c + 1)"
      "(2::real) powi (binade x + 1) = 1 / 2 powi c"
      by (simp_all only: power_int_minus_divide)
    ultimately show ?thesis by simp
  qed
  then show "2 powi binade x \<le> x" and "x < 2 powi (binade x + 1)" by simp_all
qed

lemma binade_unique:
  assumes "2 powi e \<le> x" "x < 2 powi (e + 1)"
  shows "binade x = e"
proof -
  have x: "0 < x" using assms(1) by (rule less_le_trans [rotated]) simp
  note b = binade_bounds [OF x]
  have "binade x < e + 1"
  proof (rule ccontr)
    assume "\<not> binade x < e + 1"
    then have "(2::real) powi (e + 1) \<le> 2 powi binade x"
      by (intro power_int_increasing) simp_all
    with b(1) assms(2) show False by linarith
  qed
  moreover have "e < binade x + 1"
  proof (rule ccontr)
    assume "\<not> e < binade x + 1"
    then have "(2::real) powi (binade x + 1) \<le> 2 powi e"
      by (intro power_int_increasing) simp_all
    with b(2) assms(1) show False by linarith
  qed
  ultimately show ?thesis by simp
qed

lemma binade_mono:
  assumes "0 < x" "x \<le> y"
  shows "binade x \<le> binade y"
proof (rule ccontr)
  assume "\<not> binade x \<le> binade y"
  then have "(2::real) powi (binade y + 1) \<le> 2 powi binade x"
    by (intro power_int_increasing) simp_all
  with binade_bounds(1) [OF assms(1)] binade_bounds(2) [of y] assms show False by linarith
qed

lemma round_even_of_int [simp]: "round_even (of_int m) = m"
  by (simp add: round_even_def)

lemma round_even_range: "\<lfloor>q\<rfloor> \<le> round_even q \<and> round_even q \<le> \<lfloor>q\<rfloor> + 1"
  by (simp add: round_even_def Let_def)

lemma round_even_error: "\<bar>of_int (round_even q) - q\<bar> \<le> 1 / 2"
proof -
  have "of_int \<lfloor>q\<rfloor> \<le> q" "q < of_int \<lfloor>q\<rfloor> + 1" by linarith+
  then show ?thesis by (auto simp: round_even_def Let_def)
qed

lemma round_even_mono:
  assumes "q \<le> q'"
  shows "round_even q \<le> round_even q'"
proof (cases "\<lfloor>q\<rfloor> = \<lfloor>q'\<rfloor>")
  case True
  then show ?thesis using assms by (auto simp: round_even_def Let_def)
next
  case False
  then have "\<lfloor>q\<rfloor> + 1 \<le> \<lfloor>q'\<rfloor>" using floor_mono [OF assms] by simp
  then show ?thesis using round_even_range [of q] round_even_range [of q'] by linarith
qed

lemma round_even_minus: "round_even (- q) = - round_even q"
proof (cases "q = of_int \<lfloor>q\<rfloor>")
  case True
  then have "round_even (- of_int \<lfloor>q\<rfloor>) = - round_even (of_int \<lfloor>q\<rfloor>)"
    unfolding of_int_minus [symmetric] round_even_of_int by simp
  then show ?thesis using True by simp
next
  case False
  have q: "of_int \<lfloor>q\<rfloor> < q" "q < of_int \<lfloor>q\<rfloor> + 1" using False by linarith+
  then have f: "\<lfloor>- q\<rfloor> = - \<lfloor>q\<rfloor> - 1" by linarith
  show ?thesis using q by (auto simp: round_even_def Let_def f)
qed


lemma pow2_less_cancel: "(2::real) powi a < 2 powi b \<Longrightarrow> a < b"
proof (rule ccontr)
  assume "(2::real) powi a < 2 powi b" "\<not> a < b"
  then have "(2::real) powi b \<le> 2 powi a"
    by (intro power_int_increasing) simp_all
  with \<open>(2::real) powi a < 2 powi b\<close> show False by simp
qed

lemma pow2_split: "k \<le> n \<Longrightarrow> (2::real) powi n = 2 ^ nat (n - k) * 2 powi k"
proof -
  assume "k \<le> n"
  then have "n = int (nat (n - k)) + k" by simp
  then have "(2::real) powi n = 2 powi (int (nat (n - k)) + k)" by simp
  also have "\<dots> = 2 powi int (nat (n - k)) * 2 powi k"
    by (rule power_int_add) simp
  finally show ?thesis by (simp only: power_int_of_nat)
qed

lemma round_even_eqI:
  assumes "\<bar>q - of_int m\<bar> < 1 / 2"
  shows "round_even q = m"
proof -
  have "\<bar>real_of_int (round_even q) - of_int m\<bar> < 1"
    using round_even_error [of q] assms by linarith
  then have "\<bar>real_of_int (round_even q - m)\<bar> < 1" by simp
  then have "\<bar>round_even q - m\<bar> < 1"
    by (metis of_int_abs of_int_less_1_iff)
  then show ?thesis by simp
qed

lemma round_even_0 [simp]: "round_even 0 = 0"
  using round_even_of_int [of 0] by simp

lemma round32_0 [simp]: "round32 0 = 0"
  by (simp add: round32_def)

lemma ulp_exp_minus [simp]: "ulp_exp (- x) = ulp_exp x"
  by (simp add: ulp_exp_def)

lemma round32_minus: "round32 (- x) = - round32 x"
  by (simp add: round32_def round_even_minus)

lemma round32_exact:
  assumes m: "\<bar>m\<bar> < 2 ^ 24" and k: "- 149 \<le> k"
  shows "round32 (of_int m * 2 powi k) = of_int m * 2 powi k"
proof (cases "m = 0")
  case True
  then show ?thesis by simp
next
  case False
  define y :: real where "y = of_int m * 2 powi k"
  define ke where "ke = ulp_exp y"
  have a: "\<bar>y\<bar> = of_int \<bar>m\<bar> * 2 powi k"
    by (simp add: y_def abs_mult)
  have pos: "0 < \<bar>y\<bar>"
    using False by (simp add: y_def)
  have "real_of_int \<bar>m\<bar> < real_of_int (2 ^ 24)"
    using m by (simp only: of_int_less_iff)
  then have "real_of_int \<bar>m\<bar> * 2 powi k < 2 ^ 24 * 2 powi k"
    by (simp del: of_int_abs)
  also have "\<dots> = 2 powi (24 + k)"
    by (simp add: power_int_add)
  finally have "2 powi binade \<bar>y\<bar> < (2::real) powi (24 + k)"
    using binade_bounds(1) [OF pos] unfolding a by linarith
  then have "binade \<bar>y\<bar> < 24 + k"
    by (rule pow2_less_cancel)
  then have le: "ke \<le> k"
    using k by (simp add: ke_def ulp_exp_def)
  have p: "(2::real) powi k = 2 ^ nat (k - ke) * 2 powi ke"
    using le by (rule pow2_split)
  have "y / 2 powi ke = of_int (m * 2 ^ nat (k - ke))"
    unfolding y_def p by simp
  then have "round_even (y / 2 powi ke) = m * 2 ^ nat (k - ke)"
    by (simp only: round_even_of_int)
  then have "round32 y = of_int (m * 2 ^ nat (k - ke)) * 2 powi ke"
    by (simp only: round32_def ke_def)
  also have "\<dots> = y"
    unfolding y_def p by simp
  finally show ?thesis unfolding y_def .
qed

lemma round32_1 [simp]: "round32 1 = 1"
  using round32_exact [of 1 0] by simp

lemma round32_pos_form:
  assumes "0 < x"
  shows "\<exists>m. round32 x = of_int m * 2 powi (max (binade x) (- 126) - 23)
           \<and> 0 \<le> m \<and> m \<le> 2 ^ 24 \<and> (- 126 \<le> binade x \<longrightarrow> 2 ^ 23 \<le> m)"
proof -
  define b where "b = max (binade x) (- 126)"
  define k where "k = b - 23"
  define q where "q = x / 2 powi k"
  have ke: "ulp_exp x = k"
    using assms by (simp add: ulp_exp_def k_def b_def)
  have r: "round32 x = of_int (round_even q) * 2 powi k"
    by (simp add: round32_def ke q_def)
  have "x < 2 powi (binade x + 1)" by (rule binade_bounds(2) [OF assms])
  also have "\<dots> \<le> 2 powi (b + 1)"
    by (intro power_int_increasing) (simp_all add: b_def)
  also have "\<dots> = 2 ^ 24 * 2 powi k"
    using pow2_split [of k "b + 1"] by (simp add: k_def)
  finally have "q < 2 ^ 24"
    by (simp add: q_def field_simps)
  then have "q \<le> real_of_int (2 ^ 24)" by simp
  then have "round_even q \<le> round_even (real_of_int (2 ^ 24))"
    by (rule round_even_mono)
  then have u: "round_even q \<le> 2 ^ 24"
    by (simp only: round_even_of_int)
  have "real_of_int 0 \<le> q" using assms by (simp add: q_def)
  then have "round_even (real_of_int 0) \<le> round_even q"
    by (rule round_even_mono)
  then have l: "0 \<le> round_even q"
    by (simp only: round_even_of_int)
  have n: "2 ^ 23 \<le> round_even q" if "- 126 \<le> binade x"
  proof -
    have "b = binade x" using that by (simp add: b_def)
    then have "2 powi b \<le> x" using binade_bounds(1) [OF assms] by simp
    moreover have "(2::real) powi b = 2 ^ 23 * 2 powi k"
      using pow2_split [of k b] by (simp add: k_def)
    ultimately have "2 ^ 23 \<le> q"
      by (simp add: q_def field_simps)
    then have "real_of_int (2 ^ 23) \<le> q" by simp
    then have "round_even (real_of_int (2 ^ 23)) \<le> round_even q"
      by (rule round_even_mono)
    then show ?thesis by (simp only: round_even_of_int)
  qed
  show ?thesis
    using r u l n unfolding k_def b_def by blast
qed

lemma round32_nonneg: "0 \<le> x \<Longrightarrow> 0 \<le> round32 x"
proof (cases "x = 0")
  case False
  assume "0 \<le> x"
  with False have "0 < x" by simp
  from round32_pos_form [OF this] show ?thesis by auto
qed simp

lemma round32_idem_pos:
  assumes "0 \<le> x"
  shows "round32 (round32 x) = round32 x"
proof (cases "x = 0")
  case False
  with assms have "0 < x" by simp
  from round32_pos_form [OF this] obtain m where
    r: "round32 x = of_int m * 2 powi (max (binade x) (- 126) - 23)"
    and m: "0 \<le> m" "m \<le> 2 ^ 24" by blast
  define k where "k = max (binade x) (- 126) - 23"
  have k: "- 149 \<le> k" by (simp add: k_def)
  show ?thesis
  proof (cases "m = 2 ^ 24")
    case True
    have "round32 x = of_int 1 * 2 powi (k + 24)"
      unfolding r True k_def [symmetric] using pow2_split [of k "k + 24"] by simp
    moreover have "round32 (of_int 1 * 2 powi (k + 24)) = of_int 1 * 2 powi (k + 24)"
      using k by (intro round32_exact) simp_all
    ultimately show ?thesis by simp
  next
    case False
    with m have "\<bar>m\<bar> < 2 ^ 24" by simp
    from round32_exact [OF this k] show ?thesis
      unfolding r k_def [symmetric] .
  qed
qed simp

lemma round32_idem [simp]: "round32 (round32 x) = round32 x"
proof (cases "0 \<le> x")
  case True
  then show ?thesis by (rule round32_idem_pos)
next
  case False
  then have "round32 (round32 (- x)) = round32 (- x)"
    by (intro round32_idem_pos) simp
  then show ?thesis by (simp add: round32_minus)
qed

lemma round32_mono_pos:
  assumes "0 \<le> x" "x \<le> y"
  shows "round32 x \<le> round32 y"
proof (cases "x = 0")
  case True
  then show ?thesis using assms round32_nonneg [of y] by simp
next
  case False
  with assms have x: "0 < x" and y: "0 < y" by simp_all
  define bx where "bx = max (binade x) (- 126)"
  define by' where "by' = max (binade y) (- 126)"
  have le: "bx \<le> by'"
    using binade_mono [OF x assms(2)] by (simp add: bx_def by'_def)
  show ?thesis
  proof (cases "bx = by'")
    case True
    then have "ulp_exp x = ulp_exp y"
      using x y by (simp add: ulp_exp_def bx_def by'_def)
    moreover have "round_even (x / 2 powi ulp_exp y) \<le> round_even (y / 2 powi ulp_exp y)"
      using assms(2) by (intro round_even_mono) (simp add: divide_right_mono)
    ultimately show ?thesis
      by (simp add: round32_def)
  next
    case False
    with le have lt: "bx < by'" by simp
    then have n: "- 126 \<le> binade y" and b: "by' = binade y"
      unfolding bx_def by'_def by linarith+
    from round32_pos_form [OF x] obtain m where
      rx: "round32 x = of_int m * 2 powi (bx - 23)" and m: "m \<le> 2 ^ 24"
      unfolding bx_def by blast
    from round32_pos_form [OF y] n obtain m' where
      ry: "round32 y = of_int m' * 2 powi (by' - 23)" and m': "2 ^ 23 \<le> m'"
      unfolding by'_def by blast
    have "real_of_int m \<le> real_of_int (2 ^ 24)"
      using m by (simp only: of_int_le_iff)
    then have "round32 x \<le> 2 ^ 24 * 2 powi (bx - 23)"
      unfolding rx by (simp del: of_int_le_iff)
    also have "\<dots> = 2 powi (bx + 1)"
      using pow2_split [of "bx - 23" "bx + 1"] by simp
    also have "\<dots> \<le> 2 powi by'"
      using lt by (intro power_int_increasing) simp_all
    also have "\<dots> = 2 ^ 23 * 2 powi (by' - 23)"
      using pow2_split [of "by' - 23" by'] by simp
    also have "\<dots> \<le> round32 y"
    proof -
      have "real_of_int (2 ^ 23) \<le> real_of_int m'"
        using m' by (simp only: of_int_le_iff)
      then show ?thesis unfolding ry by (simp del: of_int_le_iff)
    qed
    finally show ?thesis .
  qed
qed

lemma round32_mono:
  assumes "x \<le> y"
  shows "round32 x \<le> round32 y"
proof -
  consider "0 \<le> x" | "x < 0" "0 \<le> y" | "y < 0" using assms by linarith
  then show ?thesis
  proof cases
    case 1
    then show ?thesis using assms by (rule round32_mono_pos)
  next
    case 2
    have "0 \<le> round32 (- x)" using 2 by (intro round32_nonneg) simp
    moreover have "0 \<le> round32 y" using 2 by (intro round32_nonneg)
    ultimately show ?thesis by (simp add: round32_minus)
  next
    case 3
    have "round32 (- y) \<le> round32 (- x)"
      using 3 assms by (intro round32_mono_pos) simp_all
    then show ?thesis by (simp add: round32_minus)
  qed
qed

lemma round32_error: "\<bar>round32 x - x\<bar> \<le> 2 powi ulp_exp x / 2"
proof -
  define p :: real where "p = 2 powi ulp_exp x"
  define a :: real where "a = of_int (round_even (x / p))"
  have p: "0 < p" by (simp add: p_def)
  have "\<bar>a - x / p\<bar> \<le> 1 / 2"
    unfolding a_def by (rule round_even_error)
  then have "\<bar>a - x / p\<bar> * p \<le> 1 / 2 * p"
    using p by (intro mult_right_mono) simp_all
  moreover have "(a - x / p) * p = a * p - x"
    using p by (simp add: field_simps)
  then have "\<bar>a - x / p\<bar> * p = \<bar>a * p - x\<bar>"
    using p by (metis abs_mult abs_of_pos)
  ultimately have "\<bar>a * p - x\<bar> \<le> p / 2" by simp
  then show ?thesis
    unfolding a_def p_def round32_def .
qed

lemma round32_error_unit:
  assumes "0 \<le> x" "x < 1"
  shows "\<bar>round32 x - x\<bar> \<le> 1 / 2 ^ 25"
proof (cases "x = 0")
  case False
  with assms have x: "0 < x" by simp
  have "2 powi binade x < (2::real) powi 0"
    using binade_bounds(1) [OF x] assms(2) by simp
  then have "binade x < 0" by (rule pow2_less_cancel)
  then have "ulp_exp x \<le> - 24"
    using x by (simp add: ulp_exp_def)
  then have "(2::real) powi ulp_exp x \<le> 2 powi (- 24)"
    by (intro power_int_increasing) simp_all
  then show ?thesis using round32_error [of x] by (simp add: power_int_minus)
qed simp

lemma round32_eqI:
  assumes "2 powi e \<le> \<bar>x\<bar>" "\<bar>x\<bar> < 2 powi (e + 1)" "k = max e (- 126) - 23"
    and "\<bar>x / 2 powi k - of_int m\<bar> < 1 / 2"
  shows "round32 x = of_int m * 2 powi k"
proof -
  have "binade \<bar>x\<bar> = e" using assms(1,2) by (rule binade_unique)
  then have "ulp_exp x = k" by (simp add: ulp_exp_def assms(3))
  then show ?thesis
    using round_even_eqI [OF assms(4)] by (simp add: round32_def)
qed

text \<open>The same for \<open>fl\<close>, where the result can overflow.\<close>

lemma FLT_MAX_pos: "0 < FLT_MAX"
  by (simp add: FLT_MAX_def)

lemma fl_0 [simp]: "fl 0 = Finite 0"
  using FLT_MAX_pos by (simp add: fl_def)

lemma fl_nonneg:
  assumes "0 \<le> x"
  shows "fl x = PlusInf \<or> fl x = Finite (round32 x)"
proof -
  have "0 \<le> round32 x" using assms by (rule round32_nonneg)
  then have "\<not> round32 x < - FLT_MAX" using FLT_MAX_pos by linarith
  then show ?thesis by (simp add: fl_def Let_def)
qed

lemma fl_Finite: "fl x = Finite y \<Longrightarrow> y = round32 x"
  by (simp add: fl_def Let_def split: if_splits)

lemma fl_small:
  assumes "\<bar>x\<bar> \<le> 1"
  shows "fl x = Finite (round32 x)"
proof -
  have "round32 (- 1) \<le> round32 x" "round32 x \<le> round32 1"
    using assms by (intro round32_mono; linarith)+
  then have "- 1 \<le> round32 x" "round32 x \<le> 1"
    by (simp_all add: round32_minus)
  moreover have "1 < FLT_MAX" by (simp add: FLT_MAX_def)
  ultimately show ?thesis by (simp add: fl_def Let_def)
qed

section \<open>Bit reinterpretation of the face id\<close>

lemma float_as_uint_uint_as_float: "float_as_uint (uint_as_float w) = w"
proof (rule bit_word_eqI)
  fix n assume n: "n < LENGTH(32)"
  consider "n < 23" | "23 \<le> n" "n < 31" | "n = 31" using n by fastforce
  then show "bit (float_as_uint (uint_as_float w)) n = bit w n"
  proof cases
    case 1 then show ?thesis by (simp add: float_as_uint_def uint_as_float_def bit_simps)
  next
    case 2 then show ?thesis by (auto simp add: float_as_uint_def uint_as_float_def bit_simps)
  next
    case 3 then show ?thesis by (simp add: float_as_uint_def uint_as_float_def bit_simps)
  qed
qed

text \<open>The signed reading of a 32-bit word, by cases on its top bit.\<close>

lemma sint_u32: "sint (w::u32) = (if uint w < 2 ^ 31 then uint w else uint w - 2 ^ 32)"
proof -
  have b: "0 \<le> uint w" "uint w < 2 ^ 32"
    using uint_lt2p [of w] by simp_all
  have s: "sint w = (uint w + 2 ^ 31) mod 2 ^ 32 - 2 ^ 31"
    using int_word_sint [of "uint w", where 'a = 32] by simp
  show ?thesis
  proof (cases "uint w < 2 ^ 31")
    case True
    then have "(uint w + 2 ^ 31) mod 2 ^ 32 = uint w + 2 ^ 31"
      using b by (intro mod_pos_pos_trivial) simp_all
    with True s show ?thesis by simp
  next
    case False
    have "uint w + 2 ^ 31 = (uint w - 2 ^ 31) + 2 ^ 32"
      by simp
    then have "(uint w + 2 ^ 31) mod 2 ^ 32 = (uint w - 2 ^ 31) mod 2 ^ 32"
      by (simp only: mod_add_self2)
    also have "\<dots> = uint w - 2 ^ 31"
      using False b by (intro mod_pos_pos_trivial) simp_all
    finally show ?thesis using False s by simp
  qed
qed

lemma decode_faceId_small:
  assumes "unat faceId < 2 ^ 24"
  shows "decode_faceId (uint_as_float faceId) = int (unat faceId)"
proof -
  have "uint faceId < int (2 ^ 24)"
    using assms by (metis of_nat_less_iff uint_nat)
  then have "uint faceId < 2 ^ 31" by simp
  then show ?thesis
    by (simp add: decode_faceId_def float_as_uint_uint_as_float sint_u32)
qed

lemma decode_faceId_numeral:
  "decode_faceId (uint_as_float 0) = 0"
  "decode_faceId (uint_as_float 1) = 1"
  "decode_faceId (uint_as_float 2) = 2"
  by (simp_all add: decode_faceId_def float_as_uint_uint_as_float)

text \<open>
  What the reinterpreted slot holds as a float: for an id below \<open>2 ^ 24\<close> the number
  \<open>faceId / 2 ^ 149\<close>, a subnormal or one of the smallest normal numbers, and not the
  number \<open>faceId\<close> a numeric conversion would store.
\<close>

lemma valof_uint_as_float_small:
  assumes "unat faceId < 2 ^ 24"
  shows "valof (uint_as_float faceId) = real (unat faceId) / 2 ^ 149"
proof -
  define n where "n = unat faceId"
  have n: "n < 2 ^ 24" using assms by (simp add: n_def)
  have s: "\<not> sign (uint_as_float faceId)"
  proof -
    have "bit faceId 31 \<longleftrightarrow> bit n 31"
      unfolding n_def by (simp add: bit_unsigned_iff)
    also have "\<dots> \<longleftrightarrow> odd (n div 2 ^ 31)"
      by (simp only: bit_iff_odd)
    also have "n div 2 ^ 31 = 0" using n by simp
    finally show ?thesis by (simp add: uint_as_float_def)
  qed
  have e: "unat (exponent (uint_as_float faceId)) = n div 2 ^ 23 mod 2 ^ 8"
    by (simp add: uint_as_float_def unsigned_ucast_eq unat_drop_bit_eq n_def
        take_bit_eq_mod drop_bit_eq_div unat_div)
  have f: "unat (fraction (uint_as_float faceId)) = n mod 2 ^ 23"
    by (simp add: uint_as_float_def unsigned_ucast_eq n_def take_bit_eq_mod)
  have z: "exponent (uint_as_float faceId) = 0 \<longleftrightarrow> n div 2 ^ 23 mod 2 ^ 8 = 0"
    using e by (metis unsigned_eq_0_iff)
  show ?thesis
  proof (cases "n < 2 ^ 23")
    case True
    then have "n div 2 ^ 23 = 0" "n mod 2 ^ 23 = n" by simp_all
    then show ?thesis using s e f z by (simp add: valof_def n_def)
  next
    case False
    then have d: "n div 2 ^ 23 = 1" using n by simp
    have m: "n mod 2 ^ 23 = n - 2 ^ 23" using False n
      by (simp add: mod_if)
    show ?thesis using s e f z d m False unfolding valof_def n_def [symmetric] by simp
  qed
qed

lemma reinterpretation_is_no_conversion:
  assumes "unat faceId < 2 ^ 24" "faceId \<noteq> 0"
  shows "valof (uint_as_float faceId) \<noteq> uint_to_float_value faceId"
proof -
  define n where "n = unat faceId"
  have "n \<noteq> 0"
    using assms(2) by (simp add: n_def unsigned_eq_0_iff)
  then have "0 < real n"
    by simp
  then have "real n / 2 ^ 149 < real n"
    by (simp add: field_simps)
  moreover have "valof (uint_as_float faceId) = real n / 2 ^ 149"
    unfolding n_def by (rule valof_uint_as_float_small [OF assms(1)])
  moreover have "uint_to_float_value faceId = real n"
  proof -
    have "n < 2 ^ 24" using assms(1) by (simp only: n_def)
    then have "\<bar>int n\<bar> < 2 ^ 24" by simp
    from round32_exact [OF this, of 0] have "round32 (real n) = real n" by simp
    then show ?thesis
      by (simp only: uint_to_float_value_def n_def)
  qed
  ultimately show ?thesis
    by simp
qed

text \<open>
  C6. An unsigned face id below \<open>2 ^ 24\<close>, stored into a float slot by reinterpreting its
  bits (line 206) and read back by reinterpreting the slot's bits (lines 227 and 248),
  is recovered exactly: as the same 32 bits, and as the same number in the \<^verbatim>\<open>int\<close> that
  the Target Resolver decodes into.
\<close>

theorem faceId_bits_roundtrip:
  assumes "unat faceId < 2 ^ 24"
  shows "float_as_uint (uint_as_float faceId) = faceId
       \<and> decode_faceId (uint_as_float faceId) = int (unat faceId)"
  using assms by (simp add: float_as_uint_uint_as_float decode_faceId_small)

theorem faceId_bits_roundtrip_witness:
  "unat (5 :: u32) < 2 ^ 24
   \<and> float_as_uint (uint_as_float 5) = 5
   \<and> decode_faceId (uint_as_float 5) = int (unat (5 :: u32))"
proof -
  have h: "unat (5 :: u32) < 2 ^ 24" by simp
  show ?thesis using h faceId_bits_roundtrip [OF h] by simp
qed

section \<open>The Surface Point Sampler\<close>

text \<open>The row a thread writes, given its three draws.\<close>

lemma sampler_row:
  assumes idx: "idx < n_elements" "in_bounds crs (int idx)" "row_in_bounds result idx"
    and d: "curand_uniform (crs ! idx) = (u, st1)" "curand_uniform st1 = (r1, st2)"
      "curand_uniform st2 = (r2, st3)"
  shows "generate_face_positions curand_uniform n_elements n_faces crs result idx =
          Some (crs[idx := st3],
                result[idx := (uint_as_float
                                 (float_to_uint (round32 (fmodf1 u * uint_to_float_value n_faces))),
                               round32 (1 - round32 (sqrt r1)),
                               round32 (round32 (sqrt r1) * round32 (1 - r2)))])"
  using idx d by (simp add: generate_face_positions_def rd_def wr_def wr_row_def)

text \<open>
  The face id is the truncated rounded product: for the draw \<open>13981013 / 2 ^ 24\<close> and six
  faces the product \<open>4.9999999\<close> rounds to 5, the face picked.
\<close>

lemma face_id_example:
  "float_to_uint (round32 (fmodf1 (13981013 / 2 ^ 24) * uint_to_float_value 6)) = 5"
proof -
  have u: "uint_to_float_value 6 = round32 6"
    by (simp add: uint_to_float_value_def)
  have r: "round32 6 = 6" "round32 (13981013 / 2 ^ 24 * 6) = 5"
    by code_simp+
  have f: "fmodf1 (13981013 / 2 ^ 24) = 13981013 / 2 ^ 24"
    by (simp add: fmodf1_def)
  show ?thesis
    unfolding u f r by (simp add: float_to_uint_def)
qed

text \<open>
  The rounded weights, for draws anywhere in the closed unit interval. (cuRAND documents
  the range of \<^verbatim>\<open>curand_uniform\<close> as excluding 0 and including 1; the specification takes
  the draws from \<open>[0, 1)\<close>. Both are covered.) The rounded square root \<open>s\<close> lies in
  \<open>[0, 1]\<close>; the second weight is at most \<open>s\<close>, and the first is \<open>1 - s\<close> moved by at most
  half a unit in the last place of a number below 1, which is \<open>2 ^ - 25\<close>.
\<close>

lemma round32_unit:
  assumes "0 \<le> x" "x \<le> 1"
  shows "0 \<le> round32 x" and "round32 x \<le> 1"
  using round32_nonneg [OF assms(1)] round32_mono [OF assms(2)] by simp_all

lemma rounded_weights_bounds:
  assumes r1: "0 \<le> r1" "r1 \<le> 1" and r2: "0 \<le> r2" "r2 \<le> 1"
  defines "w1 \<equiv> round32 (1 - round32 (sqrt r1))"
    and "w2 \<equiv> round32 (round32 (sqrt r1) * round32 (1 - r2))"
  shows "0 \<le> w1 \<and> w1 \<le> 1 \<and> 0 \<le> w2 \<and> w2 \<le> 1 \<and> w1 + w2 \<le> 1 + 1 / 2 ^ 25"
proof -
  define s where "s = round32 (sqrt r1)"
  define t where "t = round32 (1 - r2)"
  have "0 \<le> sqrt r1" "sqrt r1 \<le> 1" using r1 by simp_all
  then have s: "0 \<le> s" "s \<le> 1"
    unfolding s_def by (rule round32_unit)+
  have "0 \<le> 1 - r2" "1 - r2 \<le> 1" using r2 by simp_all
  then have t: "0 \<le> t" "t \<le> 1"
    unfolding t_def by (rule round32_unit)+
  have "0 \<le> 1 - s" "1 - s \<le> 1" using s by simp_all
  then have a: "0 \<le> round32 (1 - s)" "round32 (1 - s) \<le> 1"
    by (rule round32_unit)+
  have st: "0 \<le> s * t" "s * t \<le> s"
    using s t by (simp_all add: mult_left_le)
  have "round32 (s * t) \<le> round32 s"
    using st(2) by (rule round32_mono)
  then have b: "0 \<le> round32 (s * t)" "round32 (s * t) \<le> s"
    using round32_nonneg [OF st(1)] by (simp_all add: s_def)
  have e: "round32 (1 - s) \<le> 1 - s + 1 / 2 ^ 25"
  proof (cases "s = 0")
    case True
    then show ?thesis by simp
  next
    case False
    with s have "0 \<le> 1 - s" "1 - s < 1" by simp_all
    from round32_error_unit [OF this] show ?thesis by linarith
  qed
  have "w1 = round32 (1 - s)" "w2 = round32 (s * t)"
    by (simp_all add: w1_def w2_def s_def t_def)
  then show ?thesis using a b e s by linarith
qed

text \<open>
  C1, as the code has it. For draws \<open>r1\<close> and \<open>r2\<close> in \<open>[0, 1)\<close> the row a thread of the
  sampler writes holds the weights \<open>w1 = 1 - sqrt r1\<close> and \<open>w2 = sqrt r1 * (1 - r2)\<close> as
  single-precision arithmetic computes them, every operation rounded. Both lie in
  \<open>[0, 1]\<close>, and their sum is at most \<open>1 + 2 ^ - 25\<close>: it can exceed 1, by the rounding of
  \<open>w1\<close>.
\<close>

theorem barycentric_weights_rounded:
  assumes idx: "idx < n_elements" "in_bounds crs (int idx)" "row_in_bounds result idx"
    and d: "curand_uniform (crs ! idx) = (u, st1)" "curand_uniform st1 = (r1, st2)"
      "curand_uniform st2 = (r2, st3)"
    and r: "0 \<le> r1" "r1 < 1" "0 \<le> r2" "r2 < 1"
  shows "\<exists>crs' result' slot w1 w2.
           generate_face_positions curand_uniform n_elements n_faces crs result idx
             = Some (crs', result')
         \<and> result' ! idx = (slot, w1, w2)
         \<and> w1 = round32 (1 - round32 (sqrt r1))
         \<and> w2 = round32 (round32 (sqrt r1) * round32 (1 - r2))
         \<and> 0 \<le> w1 \<and> w1 \<le> 1 \<and> 0 \<le> w2 \<and> w2 \<le> 1 \<and> w1 + w2 \<le> 1 + 1 / 2 ^ 25"
proof -
  have l: "idx < length result" using idx by (simp add: row_in_bounds_def)
  have "0 \<le> r1" "r1 \<le> 1" "0 \<le> r2" "r2 \<le> 1" using r by simp_all
  from rounded_weights_bounds [OF this] show ?thesis
    unfolding sampler_row [OF idx d] using l by simp
qed

theorem barycentric_weights_rounded_witness:
  "(0::nat) < 1 \<and> in_bounds [0 :: nat] (int 0) \<and> row_in_bounds [(uint_as_float 0, 0, 0)] 0
   \<and> replay [1 / 2, 1 / 4, 1 / 2] ([0] ! 0) = (1 / 2, 1)
   \<and> replay [1 / 2, 1 / 4, 1 / 2] 1 = (1 / 4, 2)
   \<and> replay [1 / 2, 1 / 4, 1 / 2] 2 = (1 / 2, 3)
   \<and> (0::real) \<le> 1 / 4 \<and> (1 / 4 :: real) < 1 \<and> (0::real) \<le> 1 / 2 \<and> (1 / 2 :: real) < 1
   \<and> (\<exists>crs' result' slot w1 w2.
         generate_face_positions (replay [1 / 2, 1 / 4, 1 / 2]) 1 2 [0]
            [(uint_as_float 0, 0, 0)] 0 = Some (crs', result')
         \<and> result' ! 0 = (slot, w1, w2)
         \<and> w1 = round32 (1 - round32 (sqrt (1 / 4)))
         \<and> w2 = round32 (round32 (sqrt (1 / 4)) * round32 (1 - 1 / 2))
         \<and> 0 \<le> w1 \<and> w1 \<le> 1 \<and> 0 \<le> w2 \<and> w2 \<le> 1 \<and> w1 + w2 \<le> 1 + 1 / 2 ^ 25)"
proof -
  have h: "(0::nat) < 1" "in_bounds [0 :: nat] (int 0)"
    "row_in_bounds [(uint_as_float 0, 0, 0)] 0"
    by (simp_all add: in_bounds_def row_in_bounds_def INT_MAX_def)
  have d: "replay [1 / 2, 1 / 4, 1 / 2] ([0] ! 0) = (1 / 2, 1)"
    "replay [1 / 2, 1 / 4, 1 / 2] 1 = (1 / 4, 2)"
    "replay [1 / 2, 1 / 4, 1 / 2] 2 = (1 / 2, 3)"
    by (simp_all add: replay_def)
  have r: "(0::real) \<le> 1 / 4" "(1 / 4 :: real) < 1" "(0::real) \<le> 1 / 2" "(1 / 2 :: real) < 1"
    by simp_all
  note c = barycentric_weights_rounded [OF h d r, of 2]
  show ?thesis
    by (intro conjI h d r c)
qed

text \<open>
  C1, as the claim states it, fails for the draws \<open>r1 = 10737418 / 2 ^ 28\<close> (the float
  next below 0.04) and \<open>r2 = 2 ^ - 33\<close>: the square root rounds to \<open>13421773 / 2 ^ 26\<close>,
  the first weight \<open>1 - s\<close> rounds up to \<open>13421773 / 2 ^ 24\<close>, the factor \<open>1 - r2\<close> rounds
  to 1, and the two weights add up to \<open>1 + 2 ^ - 26\<close>.
\<close>

lemma sqrt_example: "round32 (sqrt (10737418 / 2 ^ 28)) = 13421773 / 2 ^ 26"
proof -
  define x :: real where "x = sqrt (10737418 / 2 ^ 28)"
  have lo: "26843545 / 2 ^ 27 < x"
    unfolding x_def by (rule real_less_rsqrt) (simp add: power2_eq_square)
  have hi: "x < 26843547 / 2 ^ 27"
    unfolding x_def by (rule real_less_lsqrt) (simp_all add: power2_eq_square)
  have "round32 x = of_int 13421773 * 2 powi (- 26)"
  proof (rule round32_eqI [where e = "- 3"])
    show "2 powi (- 3) \<le> \<bar>x\<bar>" using lo by (simp add: power_int_minus)
    show "\<bar>x\<bar> < 2 powi (- 3 + 1)" using lo hi by (simp add: power_int_minus)
    show "- 26 = max (- 3) (- 126) - (23::int)" by simp
    have "x * 2 ^ 26 - 13421773 < 1 / 2" "- (x * 2 ^ 26 - 13421773) < 1 / 2"
      using lo hi by simp_all
    then have "\<bar>x * 2 ^ 26 - 13421773\<bar> < 1 / 2"
      by (simp only: abs_less_iff)
    moreover have "x / 2 powi (- 26) = x * 2 ^ 26"
      by (simp add: power_int_minus)
    ultimately show "\<bar>x / 2 powi (- 26) - of_int 13421773\<bar> < 1 / 2"
      by simp
  qed
  then show ?thesis by (simp add: x_def power_int_minus)
qed

lemma rounded_examples:
  "round32 (1 - 13421773 / 2 ^ 26) = 13421773 / 2 ^ 24"
  "round32 (1 - 1 / 2 ^ 33) = 1"
  "round32 (13421773 / 2 ^ 26 * 1) = 13421773 / 2 ^ 26"
  "round32 (1 / 2 * 2) = 1"
  "round32 2 = 2"
  by code_simp+

theorem barycentric_sum_counterexample:
  "generate_face_positions (replay [1 / 2, 10737418 / 2 ^ 28, 1 / 2 ^ 33]) 1 2 [0]
      [(uint_as_float 0, 0, 0)] 0
     = Some ([3], [(uint_as_float 1, 13421773 / 2 ^ 24, 13421773 / 2 ^ 26)])
   \<and> (0::real) \<le> 10737418 / 2 ^ 28 \<and> (10737418 / 2 ^ 28 :: real) < 1
   \<and> (0::real) \<le> 1 / 2 ^ 33 \<and> (1 / 2 ^ 33 :: real) < 1
   \<and> \<not> (13421773 / 2 ^ 24 + 13421773 / 2 ^ 26 \<le> (1::real))"
proof -
  have h: "(0::nat) < 1" "in_bounds [0 :: nat] (int 0)"
    "row_in_bounds [(uint_as_float 0, 0, 0)] 0"
    by (simp_all add: in_bounds_def row_in_bounds_def INT_MAX_def)
  have d: "replay [1 / 2, 10737418 / 2 ^ 28, 1 / 2 ^ 33] ([0] ! 0) = (1 / 2, 1)"
    "replay [1 / 2, 10737418 / 2 ^ 28, 1 / 2 ^ 33] 1 = (10737418 / 2 ^ 28, 2)"
    "replay [1 / 2, 10737418 / 2 ^ 28, 1 / 2 ^ 33] 2 = (1 / 2 ^ 33, 3)"
    by (simp_all add: replay_def)
  have f: "fmodf1 (1 / 2) = 1 / 2" "uint_to_float_value 2 = 2" "float_to_uint 1 = 1"
    by (simp_all add: fmodf1_def uint_to_float_value_def float_to_uint_def rounded_examples)
  have "generate_face_positions (replay [1 / 2, 10737418 / 2 ^ 28, 1 / 2 ^ 33]) 1 2 [0]
      [(uint_as_float 0, 0, 0)] 0
     = Some ([3], [(uint_as_float 1, 13421773 / 2 ^ 24, 13421773 / 2 ^ 26)])"
    unfolding sampler_row [OF h d] f sqrt_example rounded_examples by simp
  then show ?thesis by simp
qed

section \<open>The Target Resolver\<close>

text \<open>
  The guard of line 249 rejects exactly the decoded ids outside \<open>[0, n_faces)\<close>.
\<close>

lemma faceId_rejected_iff:
  "faceId_rejected (decode_faceId slot) n_faces \<longleftrightarrow>
     \<not> (0 \<le> decode_faceId slot \<and> decode_faceId slot < uint n_faces)"
proof -
  define w where "w = float_as_uint slot"
  have b: "0 \<le> uint w" "uint w < 2 ^ 32"
    using uint_lt2p [of w] by simp_all
  have "faceId_rejected (sint w) n_faces \<longleftrightarrow> sint w < 0 \<or> uint n_faces \<le> uint w"
    by (simp add: faceId_rejected_def word_le_def)
  also have "\<dots> \<longleftrightarrow> \<not> (0 \<le> sint w \<and> sint w < uint n_faces)"
    using b uint_lt2p [of n_faces] by (auto simp: sint_u32 split: if_splits)
  finally show ?thesis by (simp add: decode_faceId_def w_def)
qed

lemma store3_Some:
  "in_bounds result base \<Longrightarrow> in_bounds result (base + 2) \<Longrightarrow>
   store3 result base a b c
     = Some (result[nat base := a, nat base + 1 := b, nat base + 2 := c])"
  by (auto simp: store3_def wr_def in_bounds_def nat_add_distrib)

lemma in_bounds_update [simp]: "in_bounds (xs[i := v]) j = in_bounds xs j"
  by (simp add: in_bounds_def)

text \<open>The six stores of one sample, when its slots lie inside the buffer.\<close>

lemma store6:
  assumes "in_bounds result (int b)" "in_bounds result (int b + 5)"
  shows "Option.bind (store3 result (int b) a0 a1 a2) (\<lambda>r. store3 r (int b + 3) a3 a4 a5)
         = Some (result[b := a0, b + 1 := a1, b + 2 := a2, b + 3 := a3, b + 4 := a4, b + 5 := a5])"
proof -
  have 1: "in_bounds result (int b + 2)" "in_bounds result (int b + 3)"
    using assms by (auto simp: in_bounds_def)
  show ?thesis
    using assms 1 by (simp add: store3_Some nat_add_distrib ac_simps)
qed

lemma nth_update6:
  fixes a0 :: "'a"
  assumes "b + 5 < length result"
    and "r = result[b := a0, b + 1 := a1, b + 2 := a2, b + 3 := a3, b + 4 := a4, b + 5 := a5]"
  shows "r ! b = a0" "r ! (b + 1) = a1" "r ! (b + 2) = a2"
    "r ! (b + 3) = a3" "r ! (b + 4) = a4" "r ! (b + 5) = a5"
  using assms by simp_all

lemma write_channels_eq:
  assumes res: "in_bounds result (int b)" "in_bounds result (int b + 5)"
    and d: "diffuse m = (d0, d1, d2)"
    and t: "tex2D (texture (map_Kd m)) u (1 - v) = (x, y, z, a)"
    and t': "tex2D (texture (map_Bump m)) u (1 - v) = (x', y', z', a')"
  shows "write_channels tex2D m (u, v) result (int b)
       = Some (result[b := (if valid (map_Kd m) then x else d0),
                      b + 1 := (if valid (map_Kd m) then y else d1),
                      b + 2 := (if valid (map_Kd m) then z else d2),
                      b + 3 := (if valid (map_Bump m) then x' else 0.5),
                      b + 4 := (if valid (map_Bump m) then y' else 0.5),
                      b + 5 := (if valid (map_Bump m) then z' else 1)])"
  using d t t' store6 [OF res] by (simp add: write_channels_def)

lemma write_channels_not_None:
  assumes res: "in_bounds result (int b)" "in_bounds result (int b + 5)"
  shows "write_channels tex2D m uv result (int b) \<noteq> None"
proof -
  obtain u v where uv: "uv = (u, v)" by (cases uv)
  obtain d0 d1 d2 where d: "diffuse m = (d0, d1, d2)" by (cases "diffuse m")
  obtain x y z a where t: "tex2D (texture (map_Kd m)) u (1 - v) = (x, y, z, a)"
    by (cases "tex2D (texture (map_Kd m)) u (1 - v)")
  obtain x' y' z' a' where t': "tex2D (texture (map_Bump m)) u (1 - v) = (x', y', z', a')"
    by (cases "tex2D (texture (map_Bump m)) u (1 - v)")
  show ?thesis
    unfolding uv write_channels_eq [where tex2D = tex2D and u = u and v = v, OF res d t t']
    by simp
qed

text \<open>
  C2. A sample whose decoded face id lies outside \<open>[0, n_faces)\<close> (the id \<open>n_faces\<close>, one
  past the end, among them) gets the value 0 in each of its \<open>N_OUTPUT_DIMS\<close> output
  slots: none of the sample's slots is left as it was, and no slot of another sample is
  touched.
\<close>

theorem out_of_range_faceId_zero_target:
  assumes idx: "idx < n_elements"
    and row: "rd_row training_batch idx = Some (slot, w1, w2)"
    and out: "\<not> (0 \<le> decode_faceId slot \<and> decode_faceId slot < uint n_faces)"
    and res: "in_bounds result (int idx * int N_OUTPUT_DIMS)"
             "in_bounds result (int idx * int N_OUTPUT_DIMS + 5)"
  shows "\<exists>r. generate_training_target tex2D n_elements n_faces materials material_ids
                training_batch indices texcoords result idx = Some r
             \<and> length r = length result
             \<and> (\<forall>k < N_OUTPUT_DIMS. r ! (idx * N_OUTPUT_DIMS + k) = 0)
             \<and> (\<forall>j < length result.
                   \<not> (idx * N_OUTPUT_DIMS \<le> j \<and> j < idx * N_OUTPUT_DIMS + N_OUTPUT_DIMS)
                   \<longrightarrow> r ! j = result ! j)"
proof -
  define b where "b = idx * N_OUTPUT_DIMS"
  define r where "r = result[b := 0, b + 1 := 0, b + 2 := 0, b + 3 := 0, b + 4 := 0, b + 5 := 0]"
  have ob: "int idx * int N_OUTPUT_DIMS = int b" by (simp add: b_def)
  have rej: "faceId_rejected (decode_faceId slot) n_faces"
    using out by (simp add: faceId_rejected_iff)
  have "generate_training_target tex2D n_elements n_faces materials material_ids
          training_batch indices texcoords result idx
        = Option.bind (store3 result (int b) 0 0 0) (\<lambda>r. store3 r (int b + 3) 0 0 0)"
    using idx row rej by (simp add: generate_training_target_def ob Let_def)
  also have "\<dots> = Some r"
    using res unfolding r_def ob by (rule store6)
  finally have eq: "generate_training_target tex2D n_elements n_faces materials material_ids
          training_batch indices texcoords result idx = Some r" .
  have len: "b + 5 < length result"
    using res(2) unfolding ob by (simp add: in_bounds_def nat_add_distrib)
  have zero: "\<forall>k < N_OUTPUT_DIMS. r ! (b + k) = 0"
  proof (intro allI impI)
    fix k assume "k < N_OUTPUT_DIMS"
    then have "k = 0 \<or> k = 1 \<or> k = 2 \<or> k = 3 \<or> k = 4 \<or> k = 5"
      by (auto simp: N_OUTPUT_DIMS_def)
    then show "r ! (b + k) = 0"
      using len by (auto simp: r_def)
  qed
  have rest: "\<forall>j < length result. \<not> (b \<le> j \<and> j < b + N_OUTPUT_DIMS) \<longrightarrow> r ! j = result ! j"
    by (auto simp: r_def N_OUTPUT_DIMS_def)
  show ?thesis using eq zero rest by (auto simp: r_def b_def)
qed

theorem out_of_range_faceId_zero_target_witness:
  "(0::nat) < 1
   \<and> rd_row [(uint_as_float 2, 1 / 4, 1 / 4)] 0 = Some (uint_as_float 2, 1 / 4, 1 / 4)
   \<and> \<not> (0 \<le> decode_faceId (uint_as_float 2) \<and> decode_faceId (uint_as_float 2) < uint (2 :: u32))
   \<and> in_bounds [9, 9, 9, 9, 9, 9 :: real] (int 0 * int N_OUTPUT_DIMS)
   \<and> in_bounds [9, 9, 9, 9, 9, 9 :: real] (int 0 * int N_OUTPUT_DIMS + 5)
   \<and> (\<exists>r. generate_training_target uv_texture 1 2 [flat_material] [0, 0]
              [(uint_as_float 2, 1 / 4, 1 / 4)] quad_indices quad_texcoords [9, 9, 9, 9, 9, 9] 0
            = Some r
          \<and> length r = length [9, 9, 9, 9, 9, 9 :: real]
          \<and> (\<forall>k < N_OUTPUT_DIMS. r ! (0 * N_OUTPUT_DIMS + k) = 0)
          \<and> (\<forall>j < length [9, 9, 9, 9, 9, 9 :: real].
                \<not> (0 * N_OUTPUT_DIMS \<le> j \<and> j < 0 * N_OUTPUT_DIMS + N_OUTPUT_DIMS)
                \<longrightarrow> r ! j = [9, 9, 9, 9, 9, 9] ! j))"
proof -
  have h: "(0::nat) < 1"
    "rd_row [(uint_as_float 2, 1 / 4, 1 / 4)] 0 = Some (uint_as_float 2, 1 / 4, 1 / 4)"
    "\<not> (0 \<le> decode_faceId (uint_as_float 2) \<and> decode_faceId (uint_as_float 2) < uint (2 :: u32))"
    "in_bounds [9, 9, 9, 9, 9, 9 :: real] (int 0 * int N_OUTPUT_DIMS)"
    "in_bounds [9, 9, 9, 9, 9, 9 :: real] (int 0 * int N_OUTPUT_DIMS + 5)"
    by (simp_all add: rd_row_def row_in_bounds_def in_bounds_def INT_MAX_def N_OUTPUT_DIMS_def
        decode_faceId_numeral)
  note c = out_of_range_faceId_zero_target
    [OF h, of uv_texture "[flat_material]" "[0, 0]" quad_indices quad_texcoords]
  show ?thesis
    by (intro conjI h c)
qed

text \<open>The same sample, computed: the six slots that held 9 hold 0.\<close>

lemma out_of_range_example:
  "generate_training_target uv_texture 1 2 [flat_material] [0, 0]
     [(uint_as_float 2, 1 / 4, 1 / 4)] quad_indices quad_texcoords [9, 9, 9, 9, 9, 9] 0
   = Some [0, 0, 0, 0, 0, 0]"
  by (simp add: generate_training_target_def decode_faceId_numeral faceId_rejected_def rd_def
      rd_row_def row_in_bounds_def wr_def in_bounds_def INT_MAX_def N_OUTPUT_DIMS_def store3_def)

text \<open>
  C5. For a sample whose decoded face id is in range, with the material \<open>m\<close> its face
  maps to: when \<open>map_Kd\<close> is not valid, output slots 0..2 hold the material's diffuse
  colour; when it is valid, they hold the first three components of the texture fetched at
  \<open>(u, 1 - v)\<close>, the interpolated coordinate with the second component flipped; when
  \<open>map_Bump\<close> is not valid, slots 3..5 hold \<open>(0.5, 0.5, 1)\<close>.
\<close>

theorem material_channels:
  assumes idx: "idx < n_elements"
    and row: "rd_row training_batch idx = Some (slot, w1, w2)"
    and inr: "0 \<le> decode_faceId slot" "decode_faceId slot < uint n_faces"
    and uv: "uv_interp indices texcoords (decode_faceId slot) w1 w2 = Some (u, v)"
    and mid: "rd material_ids (decode_faceId slot) = Some material_id"
    and mat: "rd materials material_id = Some m"
    and res: "in_bounds result (int idx * int N_OUTPUT_DIMS)"
             "in_bounds result (int idx * int N_OUTPUT_DIMS + 5)"
  shows "\<exists>r. generate_training_target tex2D n_elements n_faces materials material_ids
                training_batch indices texcoords result idx = Some r
           \<and> (\<not> valid (map_Kd m) \<longrightarrow>
                (r ! (idx * N_OUTPUT_DIMS + 0), r ! (idx * N_OUTPUT_DIMS + 1),
                 r ! (idx * N_OUTPUT_DIMS + 2)) = diffuse m)
           \<and> (valid (map_Kd m) \<longrightarrow>
                (\<exists>a. tex2D (texture (map_Kd m)) u (1 - v) =
                   (r ! (idx * N_OUTPUT_DIMS + 0), r ! (idx * N_OUTPUT_DIMS + 1),
                    r ! (idx * N_OUTPUT_DIMS + 2), a)))
           \<and> (\<not> valid (map_Bump m) \<longrightarrow>
                (r ! (idx * N_OUTPUT_DIMS + 3), r ! (idx * N_OUTPUT_DIMS + 4),
                 r ! (idx * N_OUTPUT_DIMS + 5)) = (0.5, 0.5, 1))"
proof -
  define b where "b = idx * N_OUTPUT_DIMS"
  have ob: "int idx * int N_OUTPUT_DIMS = int b" by (simp add: b_def)
  have acc: "\<not> faceId_rejected (decode_faceId slot) n_faces"
    using inr by (simp add: faceId_rejected_iff)
  have eq: "generate_training_target tex2D n_elements n_faces materials material_ids
          training_batch indices texcoords result idx
        = write_channels tex2D m (u, v) result (int b)"
    using idx row acc uv mid mat by (simp add: generate_training_target_def ob Let_def)
  have len: "b + 5 < length result"
    using res(2) unfolding ob by (simp add: in_bounds_def nat_add_distrib)
  obtain d0 d1 d2 where d: "diffuse m = (d0, d1, d2)" by (cases "diffuse m")
  obtain x y z a where t: "tex2D (texture (map_Kd m)) u (1 - v) = (x, y, z, a)"
    by (cases "tex2D (texture (map_Kd m)) u (1 - v)")
  obtain x' y' z' a' where t': "tex2D (texture (map_Bump m)) u (1 - v) = (x', y', z', a')"
    by (cases "tex2D (texture (map_Bump m)) u (1 - v)")
  note w = write_channels_eq
    [where tex2D = tex2D and u = u and v = v, OF res [unfolded ob] d t t']
  show ?thesis
    unfolding b_def [symmetric] eq w
    using d t nth_update6 [OF len refl] by simp
qed

lemma uv_interp_example:
  "uv_interp quad_indices quad_texcoords 1 (1 / 4) (1 / 4) = Some (3 / 4, 3 / 4)"
  by (simp add: uv_interp_def quad_indices_def quad_texcoords_def corner_of_def rd_def
      in_bounds_def INT_MAX_def)

theorem material_channels_witness:
  "(0::nat) < 1
   \<and> rd_row [(uint_as_float 1, 1 / 4, 1 / 4)] 0 = Some (uint_as_float 1, 1 / 4, 1 / 4)
   \<and> 0 \<le> decode_faceId (uint_as_float 1) \<and> decode_faceId (uint_as_float 1) < uint (2 :: u32)
   \<and> uv_interp quad_indices quad_texcoords (decode_faceId (uint_as_float 1)) (1 / 4) (1 / 4)
       = Some (3 / 4, 3 / 4)
   \<and> rd [0, 1] (decode_faceId (uint_as_float 1)) = Some 1
   \<and> rd [flat_material, textured_material] 1 = Some textured_material
   \<and> rd [1, 0] (decode_faceId (uint_as_float 1)) = Some 0
   \<and> rd [flat_material, textured_material] 0 = Some flat_material
   \<and> in_bounds [9, 9, 9, 9, 9, 9 :: real] (int 0 * int N_OUTPUT_DIMS)
   \<and> in_bounds [9, 9, 9, 9, 9, 9 :: real] (int 0 * int N_OUTPUT_DIMS + 5)
   \<and> valid (map_Kd textured_material) \<and> \<not> valid (map_Bump textured_material)
   \<and> \<not> valid (map_Kd flat_material)
   \<and> (\<exists>r. generate_training_target uv_texture 1 2 [flat_material, textured_material] [0, 1]
              [(uint_as_float 1, 1 / 4, 1 / 4)] quad_indices quad_texcoords [9, 9, 9, 9, 9, 9] 0
            = Some r
          \<and> (\<not> valid (map_Kd textured_material) \<longrightarrow>
               (r ! (0 * N_OUTPUT_DIMS + 0), r ! (0 * N_OUTPUT_DIMS + 1),
                r ! (0 * N_OUTPUT_DIMS + 2)) = diffuse textured_material)
          \<and> (valid (map_Kd textured_material) \<longrightarrow>
               (\<exists>a. uv_texture (texture (map_Kd textured_material)) (3 / 4) (1 - 3 / 4) =
                  (r ! (0 * N_OUTPUT_DIMS + 0), r ! (0 * N_OUTPUT_DIMS + 1),
                   r ! (0 * N_OUTPUT_DIMS + 2), a)))
          \<and> (\<not> valid (map_Bump textured_material) \<longrightarrow>
               (r ! (0 * N_OUTPUT_DIMS + 3), r ! (0 * N_OUTPUT_DIMS + 4),
                r ! (0 * N_OUTPUT_DIMS + 5)) = (0.5, 0.5, 1)))
   \<and> (\<exists>r. generate_training_target uv_texture 1 2 [flat_material, textured_material] [1, 0]
              [(uint_as_float 1, 1 / 4, 1 / 4)] quad_indices quad_texcoords [9, 9, 9, 9, 9, 9] 0
            = Some r
          \<and> (\<not> valid (map_Kd flat_material) \<longrightarrow>
               (r ! (0 * N_OUTPUT_DIMS + 0), r ! (0 * N_OUTPUT_DIMS + 1),
                r ! (0 * N_OUTPUT_DIMS + 2)) = diffuse flat_material)
          \<and> (valid (map_Kd flat_material) \<longrightarrow>
               (\<exists>a. uv_texture (texture (map_Kd flat_material)) (3 / 4) (1 - 3 / 4) =
                  (r ! (0 * N_OUTPUT_DIMS + 0), r ! (0 * N_OUTPUT_DIMS + 1),
                   r ! (0 * N_OUTPUT_DIMS + 2), a)))
          \<and> (\<not> valid (map_Bump flat_material) \<longrightarrow>
               (r ! (0 * N_OUTPUT_DIMS + 3), r ! (0 * N_OUTPUT_DIMS + 4),
                r ! (0 * N_OUTPUT_DIMS + 5)) = (0.5, 0.5, 1)))"
proof -
  have h: "(0::nat) < 1"
    "rd_row [(uint_as_float 1, 1 / 4, 1 / 4)] 0 = Some (uint_as_float 1, 1 / 4, 1 / 4)"
    "0 \<le> decode_faceId (uint_as_float 1)" "decode_faceId (uint_as_float 1) < uint (2 :: u32)"
    "uv_interp quad_indices quad_texcoords (decode_faceId (uint_as_float 1)) (1 / 4) (1 / 4)
       = Some (3 / 4, 3 / 4)"
    by (simp_all add: rd_row_def row_in_bounds_def INT_MAX_def decode_faceId_numeral
        uv_interp_example)
  have t: "rd [0, 1] (decode_faceId (uint_as_float 1)) = Some 1"
    "rd [flat_material, textured_material] 1 = Some textured_material"
    and f: "rd [1, 0] (decode_faceId (uint_as_float 1)) = Some 0"
    "rd [flat_material, textured_material] 0 = Some flat_material"
    and b: "in_bounds [9, 9, 9, 9, 9, 9 :: real] (int 0 * int N_OUTPUT_DIMS)"
    "in_bounds [9, 9, 9, 9, 9, 9 :: real] (int 0 * int N_OUTPUT_DIMS + 5)"
    and v: "valid (map_Kd textured_material)" "\<not> valid (map_Bump textured_material)"
    "\<not> valid (map_Kd flat_material)"
    by (simp_all add: rd_def in_bounds_def INT_MAX_def decode_faceId_numeral N_OUTPUT_DIMS_def
        textured_material_def flat_material_def no_texture_def)
  note c1 = material_channels [where tex2D = uv_texture and n_faces = 2
      and indices = quad_indices and texcoords = quad_texcoords, OF h t b]
  note c2 = material_channels [where tex2D = uv_texture and n_faces = 2
      and indices = quad_indices and texcoords = quad_texcoords, OF h f b]
  show ?thesis
    by (intro conjI h t f b v c1 c2)
qed

text \<open>The two samples, computed.\<close>

lemma material_channels_example:
  "generate_training_target uv_texture 1 2 [flat_material, textured_material] [0, 1]
     [(uint_as_float 1, 1 / 4, 1 / 4)] quad_indices quad_texcoords [9, 9, 9, 9, 9, 9] 0
   = Some [3 / 4, 1 / 4, 7, 1 / 2, 1 / 2, 1]"
  "generate_training_target uv_texture 1 2 [flat_material, textured_material] [1, 0]
     [(uint_as_float 1, 1 / 4, 1 / 4)] quad_indices quad_texcoords [9, 9, 9, 9, 9, 9] 0
   = Some [1 / 4, 1 / 2, 3 / 4, 1 / 2, 1 / 2, 1]"
  by (simp_all add: generate_training_target_def decode_faceId_numeral faceId_rejected_def
      word_le_def uv_interp_example rd_def rd_row_def row_in_bounds_def wr_def in_bounds_def
      INT_MAX_def N_OUTPUT_DIMS_def store3_def
      write_channels_def flat_material_def textured_material_def no_texture_def uv_texture_def)

text \<open>
  C10. For a sample whose decoded face id is in range, the kernel indexes the material
  table with \<open>material_ids[faceId]\<close> as it stands. The thread is defined exactly when that
  entry is an index of the table, and then its result is what the channels of that
  material give, never the all-zero fallback of the guard; for the entry \<open>-1\<close>, which
  stands for "no material", it is an access outside the table.
\<close>

theorem material_lookup_unchecked:
  assumes idx: "idx < n_elements"
    and row: "rd_row training_batch idx = Some (slot, w1, w2)"
    and inr: "0 \<le> decode_faceId slot" "decode_faceId slot < uint n_faces"
    and uv: "uv_interp indices texcoords (decode_faceId slot) w1 w2 = Some uv"
    and mid: "rd material_ids (decode_faceId slot) = Some material_id"
    and res: "in_bounds result (int idx * int N_OUTPUT_DIMS)"
             "in_bounds result (int idx * int N_OUTPUT_DIMS + 5)"
  shows "(generate_training_target tex2D n_elements n_faces materials material_ids
            training_batch indices texcoords result idx \<noteq> None
          \<longleftrightarrow> in_bounds materials material_id)
       \<and> (in_bounds materials material_id \<longrightarrow>
            generate_training_target tex2D n_elements n_faces materials material_ids
              training_batch indices texcoords result idx
            = write_channels tex2D (materials ! nat material_id) uv result
                (int idx * int N_OUTPUT_DIMS))
       \<and> (material_id = - 1 \<longrightarrow>
            generate_training_target tex2D n_elements n_faces materials material_ids
              training_batch indices texcoords result idx = None)"
proof -
  define b where "b = idx * N_OUTPUT_DIMS"
  have ob: "int idx * int N_OUTPUT_DIMS = int b" by (simp add: b_def)
  have acc: "\<not> faceId_rejected (decode_faceId slot) n_faces"
    using inr by (simp add: faceId_rejected_iff)
  have eq: "generate_training_target tex2D n_elements n_faces materials material_ids
          training_batch indices texcoords result idx
        = Option.bind (rd materials material_id) (\<lambda>m. write_channels tex2D m uv result (int b))"
    using idx row acc uv mid by (simp add: generate_training_target_def ob Let_def)
  have some: "write_channels tex2D m uv result (int b) \<noteq> None" for m
    using res unfolding ob by (rule write_channels_not_None)
  have neg: "\<not> in_bounds materials (- 1)" by (simp add: in_bounds_def)
  show ?thesis
    unfolding eq ob using some neg by (auto simp: rd_def)
qed

theorem material_lookup_unchecked_witness:
  "(0::nat) < 1
   \<and> rd_row [(uint_as_float 1, 1 / 4, 1 / 4)] 0 = Some (uint_as_float 1, 1 / 4, 1 / 4)
   \<and> 0 \<le> decode_faceId (uint_as_float 1) \<and> decode_faceId (uint_as_float 1) < uint (2 :: u32)
   \<and> uv_interp quad_indices quad_texcoords (decode_faceId (uint_as_float 1)) (1 / 4) (1 / 4)
       = Some (3 / 4, 3 / 4)
   \<and> rd [0, - 1] (decode_faceId (uint_as_float 1)) = Some (- 1)
   \<and> rd [0, 0] (decode_faceId (uint_as_float 1)) = Some 0
   \<and> in_bounds [9, 9, 9, 9, 9, 9 :: real] (int 0 * int N_OUTPUT_DIMS)
   \<and> in_bounds [9, 9, 9, 9, 9, 9 :: real] (int 0 * int N_OUTPUT_DIMS + 5)
   \<and> in_bounds [flat_material] 0 \<and> \<not> in_bounds [flat_material] (- 1)
   \<and> generate_training_target uv_texture 1 2 [flat_material] [0, - 1]
        [(uint_as_float 1, 1 / 4, 1 / 4)] quad_indices quad_texcoords [9, 9, 9, 9, 9, 9] 0
      = None
   \<and> generate_training_target uv_texture 1 2 [flat_material] [0, 0]
        [(uint_as_float 1, 1 / 4, 1 / 4)] quad_indices quad_texcoords [9, 9, 9, 9, 9, 9] 0
      = write_channels uv_texture ([flat_material] ! nat 0) (3 / 4, 3 / 4) [9, 9, 9, 9, 9, 9]
          (int 0 * int N_OUTPUT_DIMS)"
proof -
  have h: "(0::nat) < 1"
    "rd_row [(uint_as_float 1, 1 / 4, 1 / 4)] 0 = Some (uint_as_float 1, 1 / 4, 1 / 4)"
    "0 \<le> decode_faceId (uint_as_float 1)" "decode_faceId (uint_as_float 1) < uint (2 :: u32)"
    "uv_interp quad_indices quad_texcoords (decode_faceId (uint_as_float 1)) (1 / 4) (1 / 4)
       = Some (3 / 4, 3 / 4)"
    by (simp_all add: rd_row_def row_in_bounds_def INT_MAX_def decode_faceId_numeral
        uv_interp_example)
  have s: "rd [0, - 1] (decode_faceId (uint_as_float 1)) = Some (- 1)"
    and g: "rd [0, 0] (decode_faceId (uint_as_float 1)) = Some 0"
    and b: "in_bounds [9, 9, 9, 9, 9, 9 :: real] (int 0 * int N_OUTPUT_DIMS)"
    "in_bounds [9, 9, 9, 9, 9, 9 :: real] (int 0 * int N_OUTPUT_DIMS + 5)"
    and m: "in_bounds [flat_material] 0" "\<not> in_bounds [flat_material] (- 1)"
    by (simp_all add: rd_def in_bounds_def INT_MAX_def decode_faceId_numeral N_OUTPUT_DIMS_def)
  note c1 = material_lookup_unchecked [where tex2D = uv_texture and n_faces = 2
      and indices = quad_indices and texcoords = quad_texcoords
      and materials = "[flat_material]", OF h s b]
  note c2 = material_lookup_unchecked [where tex2D = uv_texture and n_faces = 2
      and indices = quad_indices and texcoords = quad_texcoords
      and materials = "[flat_material]", OF h g b]
  have n: "generate_training_target uv_texture 1 2 [flat_material] [0, - 1]
        [(uint_as_float 1, 1 / 4, 1 / 4)] quad_indices quad_texcoords [9, 9, 9, 9, 9, 9] 0
      = None"
    using c1 by blast
  have w: "generate_training_target uv_texture 1 2 [flat_material] [0, 0]
        [(uint_as_float 1, 1 / 4, 1 / 4)] quad_indices quad_texcoords [9, 9, 9, 9, 9, 9] 0
      = write_channels uv_texture ([flat_material] ! nat 0) (3 / 4, 3 / 4) [9, 9, 9, 9, 9, 9]
          (int 0 * int N_OUTPUT_DIMS)"
    using c2 m(1) by blast
  show ?thesis
    by (intro conjI h s g b m n w)
qed

section \<open>The Training Loop Driver\<close>

lemma train_loop_Suc: "train_loop loss (Suc n) = loop_body loss (train_loop loss n) n"
  by (simp add: train_loop_def)

lemma train_loop_0:
  "train_loop loss 0 = \<lparr>interval = 10, tmp_loss = Finite 0, tmp_loss_counter = 0, printed = []\<rparr>"
  by (simp add: train_loop_def)

lemma interval_loop_body:
  "interval (loop_body loss s i) =
     (if print_loss i (interval s) \<and> 0 < i \<and> interval s < 1000 then interval s * 10 else interval s)"
  by (simp add: loop_body_def Let_def)

lemma multiple_below:
  fixes i k :: nat
  assumes "i mod k = 0" "0 < i" "i \<le> k"
  shows "i = k"
proof -
  have "k dvd i" using assms(1) by (simp add: mod_eq_0_iff_dvd)
  then have "k \<le> i" using assms(2) by (rule dvd_imp_le)
  with assms(3) show ?thesis by simp
qed

lemma print_loss_closed:
  "print_loss i (interval_of_step i) \<longleftrightarrow> i = 0 \<or> i = 10 \<or> i = 100 \<or> 1000 dvd i"
proof -
  consider "i = 0" | "0 < i" "i \<le> 10" | "10 < i" "i \<le> 100" | "100 < i" by linarith
  then show ?thesis
  proof cases
    case 1
    then show ?thesis by (simp add: interval_of_step_def print_loss_def)
  next
    case 2
    have "i mod 10 = 0 \<longleftrightarrow> i = 10"
      using multiple_below [of i 10] 2 by auto
    moreover have "\<not> 1000 dvd i"
      using dvd_imp_le [of 1000 i] 2 by auto
    ultimately show ?thesis using 2 by (simp add: interval_of_step_def print_loss_def)
  next
    case 3
    have "i mod 100 = 0 \<longleftrightarrow> i = 100"
      using multiple_below [of i 100] 3 by auto
    moreover have "\<not> 1000 dvd i"
      using dvd_imp_le [of 1000 i] 3 by auto
    ultimately show ?thesis using 3 by (simp add: interval_of_step_def print_loss_def)
  next
    case 4
    then show ?thesis by (simp add: interval_of_step_def print_loss_def mod_eq_0_iff_dvd)
  qed
qed

lemma interval_of_step_Suc:
  "(if print_loss n (interval_of_step n) \<and> 0 < n \<and> interval_of_step n < 1000
    then interval_of_step n * 10 else interval_of_step n) = interval_of_step (Suc n)"
proof -
  have p: "print_loss n (interval_of_step n) \<longleftrightarrow> n = 0 \<or> n = 10 \<or> n = 100 \<or> 1000 dvd n"
    by (rule print_loss_closed)
  consider "n < 10" | "n = 10" | "10 < n" "n < 100" | "n = 100" | "100 < n" by linarith
  then show ?thesis
  proof cases
    case 1
    then have "\<not> 1000 dvd n \<or> n = 0" using dvd_imp_le [of 1000 n] by auto
    with 1 show ?thesis unfolding p by (auto simp: interval_of_step_def)
  next
    case 2 then show ?thesis unfolding p by (simp add: interval_of_step_def)
  next
    case 3
    then have "\<not> 1000 dvd n" using dvd_imp_le [of 1000 n] by auto
    with 3 show ?thesis unfolding p by (auto simp: interval_of_step_def)
  next
    case 4 then show ?thesis unfolding p by (simp add: interval_of_step_def)
  next
    case 5 then show ?thesis by (simp add: interval_of_step_def)
  qed
qed

lemma takes_sample_closed:
  "takes_sample i (interval_of_step i) \<longleftrightarrow> i = 0 \<or> i = 10 \<or> 100 dvd i"
proof -
  consider "i = 0" | "0 < i" "i \<le> 10" | "10 < i" by linarith
  then show ?thesis
  proof cases
    case 1
    then show ?thesis by (simp add: interval_of_step_def takes_sample_def)
  next
    case 2
    have "i mod 10 = 0 \<longleftrightarrow> i = 10"
      using multiple_below [of i 10] 2 by auto
    moreover have "\<not> 100 dvd i"
      using dvd_imp_le [of 100 i] 2 by auto
    ultimately show ?thesis using 2 by (simp add: interval_of_step_def takes_sample_def)
  next
    case 3
    then show ?thesis by (auto simp: interval_of_step_def takes_sample_def mod_eq_0_iff_dvd)
  qed
qed

text \<open>
  The window of a step begins right after the latest print before it.
\<close>

lemma pred_div_1000:
  fixes n :: nat
  assumes "\<not> 1000 dvd n"
  shows "(n - 1) div 1000 = n div 1000"
proof -
  define q where "q = n div 1000"
  define r where "r = n mod 1000"
  have r: "0 < r" "r < 1000" using assms by (simp_all add: r_def dvd_eq_mod_eq_0)
  have n: "n = q * 1000 + r" by (simp add: q_def r_def)
  have "n - 1 = q * 1000 + (r - 1)" using r n by simp
  moreover have "(q * 1000 + (r - 1)) div 1000 = q" using r by simp
  ultimately show ?thesis by (simp add: q_def)
qed

lemma window_start_le: "window_start n \<le> n"
proof -
  have "(n - 1) div 1000 * 1000 \<le> n - 1" by simp
  then have "(n - 1) div 1000 * 1000 + 1 \<le> n" if "1000 < n" using that by linarith
  then show ?thesis by (auto simp: window_start_def)
qed

lemma window_start_Suc:
  "window_start (Suc n) = (if printing n then Suc n else window_start n)"
proof -
  consider "n = 0" | "0 < n" "n < 10" | "n = 10" | "10 < n" "n < 100" | "n = 100"
    | "100 < n" "n < 1000" | "1000 \<le> n" "1000 dvd n" | "1000 \<le> n" "\<not> 1000 dvd n"
    by linarith
  then show ?thesis
  proof cases
    case 1 then show ?thesis by (simp add: window_start_def printing_def)
  next
    case 2
    then have "\<not> 1000 dvd n" using dvd_imp_le [of 1000 n] by auto
    with 2 show ?thesis by (simp add: window_start_def printing_def)
  next
    case 3 then show ?thesis by (simp add: window_start_def printing_def)
  next
    case 4
    then have "\<not> 1000 dvd n" using dvd_imp_le [of 1000 n] by auto
    with 4 show ?thesis by (simp add: window_start_def printing_def)
  next
    case 5 then show ?thesis by (simp add: window_start_def printing_def)
  next
    case 6
    then have "\<not> 1000 dvd n" using dvd_imp_le [of 1000 n] by auto
    with 6 show ?thesis by (simp add: window_start_def printing_def)
  next
    case 7
    then show ?thesis by (simp add: window_start_def printing_def)
  next
    case 8
    from pred_div_1000 [OF 8(2)] show ?thesis
    proof (cases "n = 1000")
      case True
      with 8 show ?thesis by simp
    next
      case False
      with 8 pred_div_1000 [OF 8(2)] show ?thesis
        by (simp add: window_start_def printing_def)
    qed
  qed
qed

lemma window_snoc:
  "window n = filter sampled [window_start n ..< n] @ (if sampled n then [n] else [])"
  using window_start_le [of n] by (simp add: window_def)

text \<open>One iteration from a state whose interval is the one of the schedule.\<close>

lemma loop_body_state:
  assumes "interval s = interval_of_step n"
  shows "loop_body loss s n =
    \<lparr>interval = interval_of_step (Suc n),
      tmp_loss = (if printing n then Finite 0
                  else if sampled n then fadd (tmp_loss s) (loss n) else tmp_loss s),
      tmp_loss_counter = (if printing n then 0
                  else if sampled n then tmp_loss_counter s + 1 else tmp_loss_counter s),
      printed = printed s @
        (if printing n
         then [(n, fdiv (if sampled n then fadd (tmp_loss s) (loss n) else tmp_loss s)
                     (fl (real (if sampled n then tmp_loss_counter s + 1
                                else tmp_loss_counter s))))]
         else [])\<rparr>"
proof -
  have p: "print_loss n (interval_of_step n) \<longleftrightarrow> printing n"
    unfolding printing_def by (rule print_loss_closed)
  have t: "takes_sample n (interval_of_step n) \<longleftrightarrow> sampled n"
    by (simp add: takes_sample_def sampled_def)
  have i: "(if printing n \<and> 0 < n \<and> interval_of_step n < 1000
            then interval_of_step n * 10 else interval_of_step n) = interval_of_step (Suc n)"
    using interval_of_step_Suc [of n] unfolding p .
  have "loop_body loss s n =
    \<lparr>interval = (if printing n \<and> 0 < n \<and> interval_of_step n < 1000
                 then interval_of_step n * 10 else interval_of_step n),
      tmp_loss = (if printing n then Finite 0
                  else if sampled n then fadd (tmp_loss s) (loss n) else tmp_loss s),
      tmp_loss_counter = (if printing n then 0
                  else if sampled n then tmp_loss_counter s + 1 else tmp_loss_counter s),
      printed = printed s @
        (if printing n
         then [(n, fdiv (if sampled n then fadd (tmp_loss s) (loss n) else tmp_loss s)
                     (fl (real (if sampled n then tmp_loss_counter s + 1
                                else tmp_loss_counter s))))]
         else [])\<rparr>"
    using assms by (cases s) (simp add: loop_body_def Let_def p t)
  then show ?thesis unfolding i .
qed

text \<open>
  The state in which step \<open>n\<close> starts: the interval of the schedule, the losses of the
  sampled steps since the latest print in the accumulator and their number in the
  counter, and one line printed for every printing step so far, showing the average over
  that step's window.
\<close>

lemma train_loop_state:
  "train_loop loss n =
    \<lparr>interval = interval_of_step n,
      tmp_loss = foldl fadd (Finite 0) (map loss (filter sampled [window_start n ..< n])),
      tmp_loss_counter = length (filter sampled [window_start n ..< n]),
      printed = map (\<lambda>i. (i, average (map loss (window i)))) (filter printing [0 ..< n])\<rparr>"
proof (induction n)
  case 0
  show ?case by (simp add: train_loop_0 interval_of_step_def)
next
  case (Suc n)
  have i: "interval (train_loop loss n) = interval_of_step n"
    unfolding Suc.IH by simp
  show ?case
    unfolding train_loop_Suc loop_body_state [OF i]
    unfolding Suc.IH
    by (simp add: window_start_Suc window_snoc average_def window_start_le add.commute)
qed

lemma interval_train_loop: "interval (train_loop loss n) = interval_of_step n"
  unfolding train_loop_state by simp

lemma window_nonempty: "printing i \<Longrightarrow> i \<in> set (window i)"
proof -
  assume "printing i"
  then have "print_loss i (interval_of_step i)"
    unfolding printing_def by (simp only: print_loss_closed)
  then have "i mod interval_of_step i = 0" by (simp add: print_loss_def)
  then have "interval_of_step i dvd i" by (simp add: mod_eq_0_iff_dvd)
  moreover have "min (interval_of_step i) 100 dvd interval_of_step i"
    by (simp add: interval_of_step_def)
  ultimately have "min (interval_of_step i) 100 dvd i" by (rule dvd_trans [rotated])
  then have "sampled i" by (simp add: sampled_def mod_eq_0_iff_dvd)
  then show ?thesis by (simp add: window_snoc)
qed

text \<open>
  C8. The logging schedule is a function of the step index alone. The interval in force
  when step \<open>i\<close> starts is \<open>interval_of_step i\<close>: 10 up to step 10, 100 up to step 100,
  1000 from then on. The loss is printed exactly at the steps 0, 10, 100 and the
  multiples of 1000. A loss sample is added to the accumulator at step \<open>i\<close> exactly when
  \<open>i\<close> is a multiple of \<open>min (interval_of_step i) 100\<close>, and the loss a printing step \<open>i\<close>
  shows is the average over its window: the losses of the steps \<open>j\<close> after the previous
  print, up to \<open>i\<close> itself, that are multiples of \<open>min (interval_of_step j) 100\<close>. Between
  prints the accumulator holds the sum of the samples taken since the latest print, and
  the counter their number.
\<close>

theorem logging_schedule:
  "map fst (printed (train_loop loss n))
     = filter (\<lambda>i. i = 0 \<or> i = 10 \<or> i = 100 \<or> 1000 dvd i) [0 ..< n]
   \<and> interval (train_loop loss i) = interval_of_step i
   \<and> (print_loss i (interval (train_loop loss i)) \<longleftrightarrow> i = 0 \<or> i = 10 \<or> i = 100 \<or> 1000 dvd i)
   \<and> (takes_sample i (interval (train_loop loss i))
        \<longleftrightarrow> i mod min (interval_of_step i) 100 = 0)
   \<and> printed (train_loop loss n)
        = map (\<lambda>i. (i, fdiv (foldl fadd (Finite 0) (map loss (window i)))
                          (fl (real (length (window i))))))
            (filter (\<lambda>i. i = 0 \<or> i = 10 \<or> i = 100 \<or> 1000 dvd i) [0 ..< n])
   \<and> set (window i)
        = {j. window_start i \<le> j \<and> j \<le> i \<and> j mod min (interval_of_step j) 100 = 0}
   \<and> window_start (Suc i)
        = (if i = 0 \<or> i = 10 \<or> i = 100 \<or> 1000 dvd i then Suc i else window_start i)
   \<and> tmp_loss (train_loop loss n)
        = foldl fadd (Finite 0) (map loss (filter sampled [window_start n ..< n]))
   \<and> tmp_loss_counter (train_loop loss n) = length (filter sampled [window_start n ..< n])"
proof -
  have "printing = (\<lambda>i. i = 0 \<or> i = 10 \<or> i = 100 \<or> 1000 dvd i)"
    by (rule ext) (simp add: printing_def)
  then have f: "filter printing xs = filter (\<lambda>i. i = 0 \<or> i = 10 \<or> i = 100 \<or> 1000 dvd i) xs"
    for xs by simp
  have c1: "map fst (printed (train_loop loss n))
     = filter (\<lambda>i. i = 0 \<or> i = 10 \<or> i = 100 \<or> 1000 dvd i) [0 ..< n]"
    unfolding train_loop_state by (simp add: comp_def f)
  have c2: "interval (train_loop loss i) = interval_of_step i"
    by (rule interval_train_loop)
  have c3: "print_loss i (interval (train_loop loss i))
      \<longleftrightarrow> i = 0 \<or> i = 10 \<or> i = 100 \<or> 1000 dvd i"
    unfolding c2 by (rule print_loss_closed)
  have c4: "takes_sample i (interval (train_loop loss i))
      \<longleftrightarrow> i mod min (interval_of_step i) 100 = 0"
    unfolding c2 by (simp add: takes_sample_def)
  have c5: "printed (train_loop loss n)
        = map (\<lambda>i. (i, fdiv (foldl fadd (Finite 0) (map loss (window i)))
                          (fl (real (length (window i))))))
            (filter (\<lambda>i. i = 0 \<or> i = 10 \<or> i = 100 \<or> 1000 dvd i) [0 ..< n])"
    unfolding train_loop_state by (simp add: average_def f)
  have c6: "set (window i)
        = {j. window_start i \<le> j \<and> j \<le> i \<and> j mod min (interval_of_step j) 100 = 0}"
    by (auto simp: window_def sampled_def)
  have c7: "window_start (Suc i)
        = (if i = 0 \<or> i = 10 \<or> i = 100 \<or> 1000 dvd i then Suc i else window_start i)"
    using window_start_Suc [of i] by (simp only: printing_def)
  have c8: "tmp_loss (train_loop loss n)
        = foldl fadd (Finite 0) (map loss (filter sampled [window_start n ..< n]))"
    unfolding train_loop_state by simp
  have c9: "tmp_loss_counter (train_loop loss n)
        = length (filter sampled [window_start n ..< n])"
    unfolding train_loop_state by simp
  show ?thesis
    by (intro conjI c1 c2 c3 c4 c5 c6 c7 c8 c9)
qed

text \<open>
  The windows: the first three prints average one sample each, the print at step 1000 the
  samples of the steps 200, 300 and so on up to 1000, and every later print the samples of the ten
  multiples of 100 since the print before.
\<close>

lemma window_examples:
  "window 0 = [0]" "window 10 = [10]" "window 100 = [100]"
  by code_simp+

lemma sampled_late: "100 < j \<Longrightarrow> sampled j \<longleftrightarrow> 100 dvd j"
  by (simp add: sampled_def interval_of_step_def mod_eq_0_iff_dvd)

lemma window_first_thousand:
  assumes "100 < i" "i \<le> 1000"
  shows "set (window i) = {j. 100 < j \<and> j \<le> i \<and> 100 dvd j}"
proof -
  have w: "window_start i = 101" using assms by (simp add: window_start_def)
  have "j \<in> set (window i) \<longleftrightarrow> 100 < j \<and> j \<le> i \<and> 100 dvd j" for j
  proof (cases "100 < j")
    case True
    then show ?thesis by (auto simp: window_def w sampled_late)
  next
    case False
    then show ?thesis by (auto simp: window_def w)
  qed
  then show ?thesis by blast
qed

lemma window_late:
  assumes "1000 < i" "1000 dvd i"
  shows "set (window i) = {j. i - 1000 < j \<and> j \<le> i \<and> 100 dvd j}"
proof -
  obtain k where k: "i = 1000 * k" using assms(2) by (auto simp: dvd_def)
  then have k1: "1 < k" using assms(1) by simp
  have "i - 1 = (k - 1) * 1000 + 999" using k k1 by (simp add: algebra_simps)
  then have "(i - 1) div 1000 = k - 1" by simp
  then have w: "window_start i = i - 1000 + 1"
    using assms(1) k k1 by (simp add: window_start_def algebra_simps)
  have i: "2000 \<le> i" using k k1 by simp
  have "j \<in> set (window i) \<longleftrightarrow> i - 1000 < j \<and> j \<le> i \<and> 100 dvd j" for j
  proof (cases "100 < j")
    case True
    then show ?thesis using i by (auto simp: window_def w sampled_late)
  next
    case False
    then show ?thesis using i by (auto simp: window_def w)
  qed
  then show ?thesis by blast
qed

text \<open>The first 101 steps, computed.\<close>

lemma logging_schedule_example:
  "printed (train_loop loss 101)
     = [(0, average [loss 0]), (10, average [loss 10]), (100, average [loss 100])]"
proof -
  have "filter printing [0 ..< 101] = [0, 10, 100]"
    unfolding printing_def by code_simp
  then show ?thesis
    unfolding train_loop_state by (simp add: window_examples)
qed

section \<open>The Face-Area CDF\<close>

text \<open>
  A face area is a rounded square root, halved: never negative, whatever the vertices.
\<close>

lemma area_like_fl: "0 \<le> x \<Longrightarrow> area_like (fl x)"
  using fl_nonneg [of x] round32_nonneg [of x] by auto

lemma area_like_fsqrt: "area_like (fsqrt a)"
  by (cases a) (simp_all add: area_like_fl)

lemma area_like_half: "area_like a \<Longrightarrow> area_like (fmul (Finite (1 / 2)) a)"
  by (cases a) (simp_all add: area_like_fl)

lemma area_like_face_area: "area_like (face_area v1 v2 v3)"
proof -
  obtain c1 c2 c3 where "cross (vsub v2 v1) (vsub v3 v1) = (c1, c2, c3)"
    by (cases "cross (vsub v2 v1) (vsub v3 v1)")
  then show ?thesis
    by (simp add: face_area_def area_like_half area_like_fsqrt)
qed

lemma histogram_loop_length:
  "histogram_loop vertices indices is = Some histogram \<Longrightarrow> length histogram = length is"
  by (induction "is" arbitrary: histogram) (auto split: bind_splits)

lemma histogram_loop_area_like:
  "histogram_loop vertices indices is = Some histogram \<Longrightarrow> \<forall>a \<in> set histogram. area_like a"
  by (induction "is" arbitrary: histogram) (auto split: bind_splits simp: area_like_face_area)

text \<open>
  Sums of areas are areas again, and such a sum is 0 only if both summands are: rounding
  is monotone and leaves a float alone, so the rounded sum is at least either summand.
\<close>

lemma fadd_area_like:
  assumes "area_like a" "area_like h"
  shows "area_like (fadd a h)"
  using assms by (cases a; cases h) (simp_all add: area_like_fl)

lemma fadd_zero:
  assumes "area_like a" "area_like h" "fadd a h = Finite 0"
  shows "a = Finite 0 \<and> h = Finite 0"
proof (cases a)
  case a: (Finite x)
  show ?thesis
  proof (cases h)
    case h: (Finite y)
    have x: "0 \<le> x" "round32 x = x" and y: "0 \<le> y" "round32 y = y"
      using assms(1,2) by (simp_all add: a h)
    have "fl (x + y) = Finite 0" using assms(3) by (simp add: a h)
    then have z: "round32 (x + y) = 0" by (auto dest: fl_Finite)
    have "round32 x \<le> round32 (x + y)" "round32 y \<le> round32 (x + y)"
      using x y by (intro round32_mono; simp)+
    then have "x = 0" "y = 0" using x y z by simp_all
    then show ?thesis by (simp add: a h)
  qed (use assms a in simp_all)
qed (use assms in \<open>cases h; simp\<close>)+

lemma foldl_fadd_zero:
  assumes "area_like a" "\<forall>h \<in> set hs. area_like h" "foldl fadd a hs = Finite 0"
  shows "a = Finite 0 \<and> (\<forall>h \<in> set hs. h = Finite 0)"
  using assms
proof (induction hs arbitrary: a)
  case Nil
  then show ?case by simp
next
  case (Cons h hs)
  have "area_like (fadd a h)"
    using Cons.prems by (intro fadd_area_like) simp_all
  from Cons.IH [OF this] Cons.prems
  have f: "fadd a h = Finite 0" and r: "\<forall>h \<in> set hs. h = Finite 0" by simp_all
  from fadd_zero [OF _ _ f] Cons.prems have "a = Finite 0 \<and> h = Finite 0" by simp
  with r show ?case by simp
qed

lemma cdf_loop_length: "length (cdf_loop histogram area_sum c_prob) = length histogram"
  by (induction histogram arbitrary: c_prob) (simp_all add: Let_def)

lemma fadd_NaN_right: "fadd c NaN = NaN"
  by (cases c) simp_all

lemma cdf_loop_NaN:
  "\<forall>a \<in> set histogram. a = Finite 0 \<Longrightarrow> c_prob = NaN \<or> histogram \<noteq> [] \<Longrightarrow>
   cdf_loop histogram (Finite 0) c_prob = replicate (length histogram) NaN"
  by (induction histogram arbitrary: c_prob) (auto simp: Let_def fadd_NaN_right)

lemma cdf_loop_zero_area:
  "\<forall>a \<in> set histogram. a = Finite 0 \<Longrightarrow>
   cdf_loop histogram (Finite 0) (Finite 0) = replicate (length histogram) NaN"
  by (cases histogram) (simp_all add: cdf_loop_NaN Let_def fadd_NaN_right)

text \<open>
  C4, as the code has it. A mesh whose total face area, the \<open>area_sum\<close> that \<open>main\<close>
  computes in single precision, is 0 does not make the CDF construction fail: with the
  argument count right, the mesh loaded and its vertex reads inside the vertex array,
  \<open>main\<close> reports nothing and goes on with a CDF buffer of one entry per face, and every
  entry is NaN, the quotient \<open>0 / 0\<close>.
\<close>

theorem cdf_of_zero_area_mesh:
  assumes h: "histogram_loop vertices indices [0 ..< length indices div 3] = Some histogram"
    and z: "area_sum_of histogram = Finite 0"
  shows "main_cdf 4 True vertices indices
           = Some (Goes_on (replicate (length indices div 3) NaN))"
proof -
  have "area_like (Finite 0)" by simp
  from foldl_fadd_zero [OF this histogram_loop_area_like [OF h]] z
  have "\<forall>a \<in> set histogram. a = Finite 0" by (simp add: area_sum_of_def)
  then have "cdf_loop histogram (Finite 0) (Finite 0) = replicate (length histogram) NaN"
    by (rule cdf_loop_zero_area)
  moreover have "length histogram = length indices div 3"
    using histogram_loop_length [OF h] by simp
  ultimately show ?thesis using h z by (simp add: main_cdf_def)
qed

lemma fsub_0 [simp]: "fsub (Finite 0) (Finite 0) = Finite 0"
  by (simp add: fsub_def)

lemma degenerate_histogram:
  "histogram_loop [0, 0, 0] (map corner_of [0, 0, 0]) [0 ..< length (map corner_of [0, 0, 0]) div 3]
     = Some [Finite 0]"
  by (simp add: corner_def corner_of_def vec_get_def rd_def in_bounds_def INT_MAX_def
      face_area_def)

theorem cdf_of_zero_area_mesh_witness:
  "histogram_loop [0, 0, 0] (map corner_of [0, 0, 0])
      [0 ..< length (map corner_of [0, 0, 0]) div 3] = Some [Finite 0]
   \<and> area_sum_of [Finite 0] = Finite 0
   \<and> main_cdf 4 True [0, 0, 0] (map corner_of [0, 0, 0])
       = Some (Goes_on (replicate (length (map corner_of [0, 0, 0]) div 3) NaN))"
proof -
  have z: "area_sum_of [Finite 0] = Finite 0" by (simp add: area_sum_of_def)
  note c = cdf_of_zero_area_mesh [OF degenerate_histogram z]
  show ?thesis by (intro conjI degenerate_histogram z c)
qed

text \<open>
  C4, as the claim states it, fails on a mesh of one face whose corners all lie in the
  origin: the areas sum to 0, and \<open>main\<close> does not exit but goes on with the buffer
  \<open>[NaN]\<close>.
\<close>

theorem zero_area_cdf_counterexample:
  "histogram_loop [0, 0, 0] (map corner_of [0, 0, 0]) [0 ..< 1] = Some [Finite 0]
   \<and> area_sum_of [Finite 0] = Finite 0
   \<and> main_cdf 4 True [0, 0, 0] (map corner_of [0, 0, 0]) = Some (Goes_on [NaN])"
  by (simp add: main_cdf_def corner_def corner_of_def vec_get_def rd_def in_bounds_def
      INT_MAX_def face_area_def area_sum_of_def)

text \<open>The only fatal errors up to the CDF: the argument count and the loader.\<close>

lemma main_cdf_fatal:
  "main_cdf argc ret vertices indices = Some (Exit c msg) \<longleftrightarrow> (argc \<noteq> 4 \<or> \<not> ret) \<and> c = 1 \<and> msg = (if argc \<noteq> 4 then ''Usage: neural_surface <object_basedir> <object_filename> <sample_path>'' else ''Loading .obj file failed.'')"
  by (auto simp: main_cdf_def split: bind_splits)

text \<open>The quad, for comparison: two faces of area \<open>1 / 2\<close> each.\<close>

lemma fl_values:
  "fl 1 = Finite 1" "fl (- 1) = Finite (- 1)" "fl (1 / 2) = Finite (1 / 2)"
  by code_simp+

lemma quad_cdf_example:
  "main_cdf 4 True quad_vertices quad_indices = Some (Goes_on [Finite (1 / 2), Finite 1])"
  by (simp add: main_cdf_def quad_vertices_def quad_indices_def corner_def corner_of_def
      vec_get_def rd_def in_bounds_def INT_MAX_def face_area_def area_sum_of_def fsub_def
      fl_values upt_rec)

text \<open>
  The total that decides is the computed one. A triangle with legs of length \<open>2 ^ - 100\<close>
  has a positive area, but the products of its cross product underflow to 0: \<open>area_sum\<close>
  is 0 and the CDF is \<open>[NaN]\<close>.
\<close>

lemma tiny_values:
  "fl (1 / 2 ^ 100) = Finite (1 / 2 ^ 100)"
  "fl (1 / 2 ^ 200) = Finite 0"
  by code_simp+

lemma underflow_example:
  "main_cdf 4 True [0, 0, 0, 1 / 2 ^ 100, 0, 0, 0, 1 / 2 ^ 100, 0] (map corner_of [0, 1, 2])
     = Some (Goes_on [NaN])"
  by (simp add: main_cdf_def corner_def corner_of_def vec_get_def rd_def in_bounds_def
      INT_MAX_def face_area_def area_sum_of_def fsub_def tiny_values [simplified])

text \<open>
  Conversely the corners \<open>(-1, -3, 0)\<close>, \<open>(2 ^ - 24, 3 * 2 ^ - 24, 0)\<close> and \<open>(1, 3, 0)\<close> lie
  on one line, so the triangle has no area; but the difference of the first two rounds
  to \<open>(1, 3 + 2 ^ - 22, 0)\<close>, the cross product with \<open>(2, 6, 0)\<close> is \<open>(0, 0, - 2 ^ - 21)\<close>,
  the computed area is \<open>2 ^ - 22\<close>, and the CDF is \<open>[1]\<close>.
\<close>

lemma collinear_values:
  "fl (1 / 2 ^ 24 + 1) = Finite 1"
  "fl (3 / 2 ^ 24 + 3) = Finite (3 + 1 / 2 ^ 22)"
  "fl 2 = Finite 2"
  "fl 6 = Finite 6"
  "fl ((3 + 1 / 2 ^ 22) * 2) = Finite (6 + 1 / 2 ^ 21)"
  "fl (6 - (6 + 1 / 2 ^ 21)) = Finite (- (1 / 2 ^ 21))"
  "fl (1 / 2 ^ 42) = Finite (1 / 2 ^ 42)"
  "fl (1 / 2 ^ 21) = Finite (1 / 2 ^ 21)"
  "fl (1 / 2 ^ 22) = Finite (1 / 2 ^ 22)"
  by code_simp+

lemma sqrt_collinear: "sqrt (2 ^ 42) = 2 ^ 21"
  by (rule real_sqrt_unique) simp_all

lemma collinear_example:
  "main_cdf 4 True [- 1, - 3, 0, 1 / 2 ^ 24, 3 / 2 ^ 24, 0, 1, 3, 0] (map corner_of [0, 1, 2])
     = Some (Goes_on [Finite 1])"
  by (simp add: main_cdf_def corner_def corner_of_def vec_get_def rd_def in_bounds_def
      INT_MAX_def face_area_def area_sum_of_def fsub_def fl_values
      collinear_values [simplified] sqrt_collinear [simplified] real_sqrt_divide)

section \<open>The Mesh Adjacency Builder\<close>


lemma std_find_Cons: "std_find (y # ys) x = (if y = x then 0 else Suc (std_find ys x))"
  by (simp add: std_find_def)

lemma std_find_Nil: "std_find [] x = 0"
  by (simp add: std_find_def)

lemma std_find_le: "std_find row x \<le> length row"
  by (simp add: std_find_def length_takeWhile_le)

lemma std_find_triple:
  assumes "unat x < nv" "nv \<le> unat fa" "nv \<le> unat fb"
  shows "std_find (y # fa # fb # rest) x = (if y = x then 0 else 3 + std_find rest x)"
proof -
  have "fa \<noteq> x" "fb \<noteq> x" using assms by auto
  then show ?thesis by (simp add: std_find_Cons)
qed

lemma row_ok_std_find:
  assumes "row_ok nv v row" "unat x < nv"
  shows "(std_find row x = length row \<longleftrightarrow> x \<notin> fst ` set (edge_records row))
       \<and> (std_find row x \<noteq> length row \<longrightarrow> std_find row x + 2 < length row)"
  using assms
proof (induction nv v row rule: row_ok.induct)
  case (1 nv v)
  show ?case by (simp add: std_find_Nil)
next
  case (2 nv v y fa fb rest)
  then have ok: "row_ok nv v rest" and b: "nv \<le> unat fa" "nv \<le> unat fb" by simp_all
  note f = std_find_triple [OF \<open>unat x < nv\<close> b, of y rest]
  from "2.IH" [OF ok \<open>unat x < nv\<close>] show ?case
    unfolding f by auto
qed simp_all

lemma map_fst_upd_records:
  "map fst (upd_records x code rs)
     = (if x \<in> set (map fst rs) then map fst rs else map fst rs @ [x])"
proof (induction rs)
  case Nil
  show ?case by simp
next
  case (Cons r rs)
  obtain y fa fb where r: "r = (y, fa, fb)" by (cases r)
  show ?case using Cons by (simp add: r)
qed

lemma keys_upd_records:
  "fst ` set (upd_records x code rs) = insert x (fst ` set rs)"
proof -
  have "set (map fst (upd_records x code rs)) = insert x (set (map fst rs))"
    unfolding map_fst_upd_records by auto
  then show ?thesis by simp
qed

lemma row_insert_records:
  assumes "row_ok nv v row" "unat x < nv" "v < unat x" "nv \<le> unat code" "nv \<le> unat SENTINEL"
  shows "edge_records (row_insert row x code) = upd_records x code (edge_records row)
       \<and> row_ok nv v (row_insert row x code)"
  using assms
proof (induction nv v row rule: row_ok.induct)
  case (1 nv v)
  then show ?case by (simp add: row_insert_def std_find_Nil)
next
  case (2 nv v y fa fb rest)
  then have ok: "row_ok nv v rest" and b: "nv \<le> unat fa" "nv \<le> unat fb"
    and y: "v < unat y" "unat y < nv" "y \<notin> fst ` set (edge_records rest)" by simp_all
  note f = std_find_triple [OF \<open>unat x < nv\<close> b, of y rest]
  note ih = "2.IH" [OF ok "2.prems"(2-5)]
  note sf = row_ok_std_find [OF ok \<open>unat x < nv\<close>]
  show ?case
  proof (cases "y = x")
    case True
    have sf0: "std_find (y # fa # fb # rest) x = 0" using f True by simp
    have "row_insert (y # fa # fb # rest) x code = y # fa # code # rest"
      unfolding row_insert_def sf0 by simp
    then show ?thesis using True "2.prems" y b ok by simp
  next
    case False
    have ins: "row_insert (y # fa # fb # rest) x code = y # fa # fb # row_insert rest x code"
      using False sf by (auto simp: row_insert_def f)
    show ?thesis
      unfolding ins using ih False y b by (simp add: keys_upd_records)
  qed
qed simp_all

lemma row_lookup_records:
  assumes "row_ok nv v row" "unat x < nv"
  shows "(if std_find row x + 2 < length row
          then Some (row ! std_find row x, row ! (std_find row x + 1), row ! (std_find row x + 2))
          else None)
         = find (\<lambda>r. fst r = x) (edge_records row)"
  using assms
proof (induction nv v row rule: row_ok.induct)
  case (1 nv v)
  show ?case by (simp add: std_find_Nil)
next
  case (2 nv v y fa fb rest)
  then have ok: "row_ok nv v rest" and b: "nv \<le> unat fa" "nv \<le> unat fb" by simp_all
  note f = std_find_triple [OF \<open>unat x < nv\<close> b, of y rest]
  from "2.IH" [OF ok \<open>unat x < nv\<close>] show ?case
    unfolding f by (auto simp: numeral_3_eq_3)
qed simp_all

lemma find_upd_records:
  "find (\<lambda>r. fst r = x') (upd_records x code rs)
     = (if x' = x then visit code x (find (\<lambda>r. fst r = x) rs)
        else find (\<lambda>r. fst r = x') rs)"
proof (induction rs)
  case Nil
  show ?case by (simp add: visit_def)
next
  case (Cons r rs)
  obtain y fa fb where r: "r = (y, fa, fb)" by (cases r)
  show ?case using Cons by (auto simp: r visit_def)
qed

lemma lookup_edge_records:
  assumes "table_ok nv adjEdges" "unat a < nv" "unat b < nv"
  shows "lookup_edge adjEdges a b
         = find (\<lambda>r. fst r = max a b) (edge_records (adjEdges ! unat (min a b)))"
proof -
  have m: "unat (min a b) < nv" "unat (max a b) < nv"
    using assms(2,3) by (simp_all add: min_def max_def)
  then have "row_ok nv (unat (min a b)) (adjEdges ! unat (min a b))"
    using assms(1) by (simp add: table_ok_def)
  from row_lookup_records [OF this m(2)] show ?thesis
    using m assms(1) by (simp add: lookup_edge_def Let_def table_ok_def)
qed

lemma unat_min_max:
  fixes a b :: u32
  assumes "a \<noteq> b"
  shows "unat (min a b) < unat (max a b)"
  using assms by (auto simp: min_def max_def word_le_nat_alt word_unat_eq_iff)

lemma add_edge_row_insert:
  assumes t: "table_ok nv adjEdges" and ab: "a \<noteq> b" "unat a < nv" "unat b < nv"
    and c: "nv \<le> unat (word_of_int n_vertices + i :: u32)" "nv \<le> unat SENTINEL"
  shows "add_edge n_vertices i adjEdges a b
         = Some (adjEdges[unat (min a b) :=
                  row_insert (adjEdges ! unat (min a b)) (max a b) (word_of_int n_vertices + i)])"
proof -
  define vmin where "vmin = min a b"
  define vmax where "vmax = max a b"
  define row where "row = adjEdges ! unat vmin"
  have m: "unat vmin < nv" "unat vmax < nv"
    using ab(2,3) by (simp_all add: min_def max_def vmin_def vmax_def)
  have ok: "row_ok nv (unat vmin) row"
    using t m by (simp add: table_ok_def row_def)
  have len: "unat vmin < length adjEdges" using t m by (simp add: table_ok_def)
  have it: "(if row = [] then length row else std_find row vmax) = std_find row vmax"
    by (simp add: std_find_Nil)
  note sf = row_ok_std_find [OF ok m(2)]
  show ?thesis
    unfolding add_edge_def vmin_def [symmetric] vmax_def [symmetric] Let_def row_def [symmetric] it
    using len sf by (auto simp: push_back_at_def row_insert_def row_def)
qed

lemma add_edge_table_ok:
  assumes t: "table_ok nv adjEdges" and ab: "a \<noteq> b" "unat a < nv" "unat b < nv"
    and c: "nv \<le> unat (word_of_int n_vertices + i :: u32)" "nv \<le> unat SENTINEL"
  shows "\<exists>adjEdges'. add_edge n_vertices i adjEdges a b = Some adjEdges'
          \<and> table_ok nv adjEdges'
          \<and> (\<forall>a' b'. unat a' < nv \<longrightarrow> unat b' < nv \<longrightarrow>
                lookup_edge adjEdges' a' b'
                = (if same_edge a b a' b'
                   then visit (word_of_int n_vertices + i) (max a b) (lookup_edge adjEdges a b)
                   else lookup_edge adjEdges a' b'))"
proof -
  define vmin where "vmin = min a b"
  define vmax where "vmax = max a b"
  define code where "code = (word_of_int n_vertices + i :: u32)"
  define row where "row = adjEdges ! unat vmin"
  define adjEdges' where "adjEdges' = adjEdges[unat vmin := row_insert row vmax code]"
  have m: "unat vmin < nv" "unat vmax < nv" "unat vmin < unat vmax"
    using ab unat_min_max [OF ab(1)] by (simp_all add: min_def max_def vmin_def vmax_def)
  have ok: "row_ok nv (unat vmin) row"
    using t m by (simp add: table_ok_def row_def)
  have len: "length adjEdges = nv" using t by (simp add: table_ok_def)
  note ins = row_insert_records [OF ok m(2) m(3) c(1) [folded code_def] c(2)]
  have eq: "add_edge n_vertices i adjEdges a b = Some adjEdges'"
    unfolding adjEdges'_def row_def vmin_def vmax_def code_def
    by (rule add_edge_row_insert [OF t ab c])
  have t': "table_ok nv adjEdges'"
    unfolding table_ok_def adjEdges'_def
    using t ins m by (auto simp: table_ok_def nth_list_update)
  have look: "lookup_edge adjEdges' a' b'
                = (if same_edge a b a' b'
                   then visit code vmax (lookup_edge adjEdges a b)
                   else lookup_edge adjEdges a' b')"
    if ab': "unat a' < nv" "unat b' < nv" for a' b'
  proof -
    have m': "unat (min a' b') < nv" using ab' by (simp add: min_def)
    show ?thesis
    proof (cases "min a' b' = vmin")
      case True
      have "lookup_edge adjEdges' a' b'
            = find (\<lambda>r. fst r = max a' b') (edge_records (row_insert row vmax code))"
        unfolding lookup_edge_records [OF t' ab'] True
        using m len by (simp add: adjEdges'_def)
      also have "\<dots> = (if max a' b' = vmax
                        then visit code vmax (find (\<lambda>r. fst r = vmax) (edge_records row))
                        else find (\<lambda>r. fst r = max a' b') (edge_records row))"
        using ins by (simp add: find_upd_records)
      finally show ?thesis
        using True
        by (simp add: same_edge_def lookup_edge_records [OF t ab'] lookup_edge_records [OF t ab(2,3)]
            vmin_def [symmetric] vmax_def [symmetric] row_def)
    next
      case False
      then have "unat (min a' b') \<noteq> unat vmin" by (simp add: word_unat_eq_iff)
      then have "adjEdges' ! unat (min a' b') = adjEdges ! unat (min a' b')"
        by (simp add: adjEdges'_def)
      then show ?thesis
        using False
        by (simp add: same_edge_def lookup_edge_records [OF t' ab'] lookup_edge_records [OF t ab']
            vmin_def [symmetric])
    qed
  qed
  show ?thesis
    using eq t' look unfolding code_def vmax_def by blast
qed

lemma same_edge_iff: "same_edge a b a' b' \<longleftrightarrow> {a', b'} = {a, b}"
  by (auto simp: same_edge_def min_def max_def doubleton_eq_iff)

lemma same_edge_lookup:
  "same_edge a b a' b' \<Longrightarrow> lookup_edge adjEdges a b = lookup_edge adjEdges a' b'"
  by (simp add: same_edge_def lookup_edge_def)

lemma same_edge_max: "same_edge a b a' b' \<Longrightarrow> max a b = max a' b'"
  by (simp add: same_edge_def)

lemma push_back_at_Some:
  "unat v < length rows \<Longrightarrow>
   push_back_at rows v xs = Some (rows[unat v := rows ! unat v @ xs])"
  by (simp add: push_back_at_def)

lemma unat_corner_index:
  fixes i :: u32
  assumes "3 * unat i + 2 < 2 ^ 32"
  shows "unat (3 * i + 0) = 3 * unat i" "unat (3 * i + 1) = 3 * unat i + 1"
    "unat (3 * i + 2) = 3 * unat i + 2"
proof -
  have m: "unat (3 * i) = 3 * unat i"
    using assms unat_mult_lem [of 3 i] by simp
  show "unat (3 * i + 0) = 3 * unat i" using m by simp
  show "unat (3 * i + 1) = 3 * unat i + 1"
    using assms m unat_add_lem [of "3 * i" 1] by simp
  show "unat (3 * i + 2) = 3 * unat i + 2"
    using assms m unat_add_lem [of "3 * i" 2] by simp
qed

lemma add_face_ok:
  assumes t: "table_ok nv adjEdges" and lf: "length adjFaces = nv"
    and f: "face_ok nv indices (unat i)" and li: "int (length indices) \<le> INT_MAX"
    and c: "nv \<le> unat (word_of_int n_vertices + i :: u32)" "nv \<le> unat SENTINEL"
  shows "\<exists>adjFaces' adjEdges'.
           add_face n_vertices indices (adjFaces, adjEdges) i = Some (adjFaces', adjEdges')
         \<and> length adjFaces' = nv \<and> table_ok nv adjEdges'
         \<and> (\<forall>v < nv. adjFaces' ! v
               = adjFaces ! v @ (if face_has_vertex indices (unat i) (of_nat v) then [i] else []))
         \<and> (\<forall>a b. unat a < nv \<longrightarrow> unat b < nv \<longrightarrow>
               lookup_edge adjEdges' a b
               = (if face_has_edge indices (unat i) a b
                  then visit (word_of_int n_vertices + i) (max a b) (lookup_edge adjEdges a b)
                  else lookup_edge adjEdges a b))"
proof -
  define v0 where "v0 = face_vertex indices (3 * unat i)"
  define v1 where "v1 = face_vertex indices (3 * unat i + 1)"
  define v2 where "v2 = face_vertex indices (3 * unat i + 2)"
  define code where "code = (word_of_int n_vertices + i :: u32)"
  have len: "3 * unat i + 2 < length indices"
    and b: "unat v0 < nv" "unat v1 < nv" "unat v2 < nv"
    and d: "v0 \<noteq> v1" "v0 \<noteq> v2" "v1 \<noteq> v2"
    using f by (simp_all add: face_ok_def v0_def v1_def v2_def)
  obtain e0 where e0: "add_edge n_vertices i adjEdges v0 v1 = Some e0" "table_ok nv e0"
    and l0: "\<And>a b. unat a < nv \<Longrightarrow> unat b < nv \<Longrightarrow>
      lookup_edge e0 a b = (if same_edge v0 v1 a b
        then visit code (max v0 v1) (lookup_edge adjEdges v0 v1) else lookup_edge adjEdges a b)"
    using add_edge_table_ok [OF t d(1) b(1) b(2) c] unfolding code_def by blast
  obtain e1 where e1: "add_edge n_vertices i e0 v0 v2 = Some e1" "table_ok nv e1"
    and l1: "\<And>a b. unat a < nv \<Longrightarrow> unat b < nv \<Longrightarrow>
      lookup_edge e1 a b = (if same_edge v0 v2 a b
        then visit code (max v0 v2) (lookup_edge e0 v0 v2) else lookup_edge e0 a b)"
    using add_edge_table_ok [OF e0(2) d(2) b(1) b(3) c] unfolding code_def by blast
  obtain e2 where e2: "add_edge n_vertices i e1 v1 v2 = Some e2" "table_ok nv e2"
    and l2: "\<And>a b. unat a < nv \<Longrightarrow> unat b < nv \<Longrightarrow>
      lookup_edge e2 a b = (if same_edge v1 v2 a b
        then visit code (max v1 v2) (lookup_edge e1 v1 v2) else lookup_edge e1 a b)"
    using add_edge_table_ok [OF e1(2) d(3) b(2) b(3) c] unfolding code_def by blast
  define f2 where "f2 = adjFaces[unat v0 := adjFaces ! unat v0 @ [i],
      unat v1 := adjFaces ! unat v1 @ [i], unat v2 := adjFaces ! unat v2 @ [i]]"
  have u: "unat v0 \<noteq> unat v1" "unat v0 \<noteq> unat v2" "unat v1 \<noteq> unat v2"
    using d by (simp_all add: word_unat_eq_iff)
  define c0 where "c0 = indices ! (3 * unat i)"
  define c1 where "c1 = indices ! (3 * unat i + 1)"
  define c2 where "c2 = indices ! (3 * unat i + 2)"
  have "length indices < 2 ^ 32" using li by (simp add: INT_MAX_def)
  then have "3 * unat i + 2 < 2 ^ 32" using len by linarith
  note ci = unat_corner_index [OF this]
  have g: "vec_get indices (unat (3 * i + 0)) = Some c0"
    "vec_get indices (unat (3 * i + 1)) = Some c1"
    "vec_get indices (unat (3 * i + 2)) = Some c2"
    unfolding ci using len by (simp_all add: vec_get_def c0_def c1_def c2_def)
  have w: "word_of_int (vertex_index c0) = v0" "word_of_int (vertex_index c1) = v1"
    "word_of_int (vertex_index c2) = v2"
    by (simp_all add: c0_def c1_def c2_def v0_def v1_def v2_def face_vertex_def)
  have eq: "add_face n_vertices indices (adjFaces, adjEdges) i = Some (f2, e2)"
    unfolding add_face_def g
    using b lf u e0(1) e1(1) e2(1)
    by (simp add: w push_back_at_Some f2_def)
  have faces: "f2 ! v = adjFaces ! v @ (if face_has_vertex indices (unat i) (of_nat v) then [i] else [])"
    if "v < nv" for v
  proof -
    have "unat SENTINEL < 2 ^ 32" using unsigned_less [of SENTINEL] by simp
    then have "v < 2 ^ 32" using that c(2) by linarith
    then have uv: "unat (of_nat v :: u32) = v" by (simp add: unat_of_nat)
    have "(of_nat v :: u32) = w \<longleftrightarrow> v = unat w" for w
      using uv by (auto simp: word_unat_eq_iff)
    then have "face_has_vertex indices (unat i) (of_nat v)
        \<longleftrightarrow> v = unat v0 \<or> v = unat v1 \<or> v = unat v2"
      using b by (simp add: face_has_vertex_def v0_def v1_def v2_def)
    then show ?thesis
      using that lf u by (auto simp: f2_def nth_list_update)
  qed
  have edges: "lookup_edge e2 a b
               = (if face_has_edge indices (unat i) a b
                  then visit code (max a b) (lookup_edge adjEdges a b)
                  else lookup_edge adjEdges a b)"
    if ab: "unat a < nv" "unat b < nv" for a b
  proof -
    have x: "\<not> (same_edge v0 v1 a b \<and> same_edge v0 v2 a b)"
      "\<not> (same_edge v0 v1 a b \<and> same_edge v1 v2 a b)"
      "\<not> (same_edge v0 v2 a b \<and> same_edge v1 v2 a b)"
      "\<not> same_edge v0 v1 v0 v2" "\<not> same_edge v0 v1 v1 v2" "\<not> same_edge v0 v2 v1 v2"
      using d by (auto simp: same_edge_iff doubleton_eq_iff)
    note l = l2 [OF ab] l1 [OF ab] l0 [OF ab] l1 [OF b(2) b(3)] l0 [OF b(2) b(3)]
      l0 [OF b(1) b(3)] face_has_edge_def v0_def [symmetric] v1_def [symmetric]
      v2_def [symmetric]
    consider (e01) "same_edge v0 v1 a b" | (e02) "same_edge v0 v2 a b"
      | (e12) "same_edge v1 v2 a b"
      | (none) "\<not> same_edge v0 v1 a b" "\<not> same_edge v0 v2 a b" "\<not> same_edge v1 v2 a b"
      by blast
    then show ?thesis
    proof cases
      case e01
      with x have "\<not> same_edge v0 v2 a b" "\<not> same_edge v1 v2 a b" by blast+
      then show ?thesis
        unfolding l using e01 same_edge_max [OF e01] same_edge_lookup [OF e01, of adjEdges]
        by simp
    next
      case e02
      with x have "\<not> same_edge v0 v1 a b" "\<not> same_edge v1 v2 a b" by blast+
      then show ?thesis
        unfolding l using e02 x same_edge_max [OF e02] same_edge_lookup [OF e02, of adjEdges]
        by simp
    next
      case e12
      with x have "\<not> same_edge v0 v1 a b" "\<not> same_edge v0 v2 a b" by blast+
      then show ?thesis
        unfolding l using e12 x same_edge_max [OF e12] same_edge_lookup [OF e12, of adjEdges]
        by simp
    next
      case none
      then show ?thesis unfolding l by simp
    qed
  qed
  have "length f2 = nv" using lf by (simp add: f2_def)
  then show ?thesis
    using eq e2(2) faces edges unfolding code_def by blast
qed

lemma unat_face_number:
  assumes "int i \<le> INT_MAX"
  shows "unat (of_nat i :: u32) = i"
proof -
  have "i < 2 ^ 32" using assms by (simp add: INT_MAX_def)
  then show ?thesis by (simp add: unat_of_nat)
qed

lemma unat_face_code:
  assumes "0 \<le> n_vertices" "n_vertices \<le> INT_MAX" "int i \<le> INT_MAX"
  shows "unat (face_code n_vertices i) = nat n_vertices + i"
proof -
  have w: "(word_of_int n_vertices :: u32) = of_nat (nat n_vertices)"
    using assms(1) by simp
  have "nat n_vertices + i < 2 ^ 32"
    using assms by (simp add: INT_MAX_def)
  then show ?thesis
    unfolding face_code_def w
    by (simp add: unat_of_nat flip: of_nat_add)
qed

lemma unat_SENTINEL: "unat SENTINEL = 2 ^ 32 - 1"
  by (simp add: SENTINEL_def)

lemma adjacency_loop_ok:
  assumes t: "table_ok nv adjEdges" and lf: "length adjFaces = nv"
    and nv: "nv = nat n_vertices" "0 \<le> n_vertices" "n_vertices \<le> INT_MAX"
    and li: "int (length indices) \<le> INT_MAX"
    and fs: "\<forall>i \<in> set faces. face_ok nv indices i \<and> int i \<le> INT_MAX"
  shows "\<exists>adjFaces' adjEdges'.
           adjacency_loop n_vertices indices faces (adjFaces, adjEdges)
             = Some (adjFaces', adjEdges')
         \<and> length adjFaces' = nv \<and> table_ok nv adjEdges'
         \<and> (\<forall>v < nv. adjFaces' ! v
               = adjFaces ! v
                 @ map of_nat (filter (\<lambda>i. face_has_vertex indices i (of_nat v)) faces))
         \<and> (\<forall>a b. unat a < nv \<longrightarrow> unat b < nv \<longrightarrow>
               lookup_edge adjEdges' a b
               = foldl (visit_face n_vertices indices a b) (lookup_edge adjEdges a b) faces)"
  using t lf fs
proof (induction faces arbitrary: adjFaces adjEdges)
  case Nil
  then show ?case by simp
next
  case (Cons i faces)
  have fi: "face_ok nv indices i" "int i \<le> INT_MAX" using Cons.prems(3) by simp_all
  have ui: "unat (of_nat i :: u32) = i" using fi(2) by (rule unat_face_number)
  have code: "word_of_int n_vertices + of_nat i = face_code n_vertices i"
    by (simp add: face_code_def)
  have c: "nv \<le> unat (word_of_int n_vertices + of_nat i :: u32)" "nv \<le> unat SENTINEL"
    using unat_face_code [OF nv(2,3) fi(2)] nv
    by (simp_all add: code unat_SENTINEL INT_MAX_def)
  have fi': "face_ok nv indices (unat (of_nat i :: u32))" using fi(1) by (simp only: ui)
  from add_face_ok [OF Cons.prems(1,2) fi' li c]
  obtain f1 e1 where s1:
    "add_face n_vertices indices (adjFaces, adjEdges) (of_nat i) = Some (f1, e1)"
    "length f1 = nv" "table_ok nv e1"
    "\<And>v. v < nv \<Longrightarrow> f1 ! v
        = adjFaces ! v @ (if face_has_vertex indices i (of_nat v) then [of_nat i] else [])"
    "\<And>a b. unat a < nv \<Longrightarrow> unat b < nv \<Longrightarrow> lookup_edge e1 a b
        = (if face_has_edge indices i a b
           then visit (face_code n_vertices i) (max a b) (lookup_edge adjEdges a b)
           else lookup_edge adjEdges a b)"
    unfolding ui code by blast
  have fs': "\<forall>i \<in> set faces. face_ok nv indices i \<and> int i \<le> INT_MAX"
    using Cons.prems(3) by simp
  from Cons.IH [OF s1(3) s1(2) fs']
  obtain f2 e2 where s2:
    "adjacency_loop n_vertices indices faces (f1, e1) = Some (f2, e2)"
    "length f2 = nv" "table_ok nv e2"
    "\<And>v. v < nv \<Longrightarrow> f2 ! v
        = f1 ! v @ map of_nat (filter (\<lambda>i. face_has_vertex indices i (of_nat v)) faces)"
    "\<And>a b. unat a < nv \<Longrightarrow> unat b < nv \<Longrightarrow> lookup_edge e2 a b
        = foldl (visit_face n_vertices indices a b) (lookup_edge e1 a b) faces"
    by blast
  have "adjacency_loop n_vertices indices (i # faces) (adjFaces, adjEdges) = Some (f2, e2)"
    using s1(1) s2(1) by simp
  moreover have "\<forall>v < nv. f2 ! v
        = adjFaces ! v @ map of_nat (filter (\<lambda>i. face_has_vertex indices i (of_nat v)) (i # faces))"
    using s1(4) s2(4) by simp
  moreover have "\<forall>a b. unat a < nv \<longrightarrow> unat b < nv \<longrightarrow> lookup_edge e2 a b
        = foldl (visit_face n_vertices indices a b) (lookup_edge adjEdges a b) (i # faces)"
    using s1(5) s2(5) by (simp add: visit_face_def)
  ultimately show ?case using s2(2,3) by blast
qed

lemma foldl_visit_Some:
  "foldl (\<lambda>r i. visit (c i) x r) (Some (y, fa, fb)) js
     = Some (y, fa, if js = [] then fb else c (last js))"
  by (induction js arbitrary: fb) (simp_all add: visit_def)

lemma foldl_visit_face_filter:
  "foldl (visit_face n_vertices indices a b) r faces
     = foldl (\<lambda>r i. visit (face_code n_vertices i) (max a b) r) r
         (filter (\<lambda>i. face_has_edge indices i a b) faces)"
  by (induction faces arbitrary: r) (simp_all add: visit_face_def)

lemma foldl_visit_face_None:
  "foldl (visit_face n_vertices indices a b) None faces
     = (case filter (\<lambda>i. face_has_edge indices i a b) faces of
          [] \<Rightarrow> None
        | j # js \<Rightarrow> Some (max a b, face_code n_vertices j,
                          if js = [] then SENTINEL else face_code n_vertices (last js)))"
proof (cases "filter (\<lambda>i. face_has_edge indices i a b) faces")
  case Nil
  then show ?thesis by (simp add: foldl_visit_face_filter)
next
  case (Cons j js)
  have "foldl (\<lambda>r i. visit (face_code n_vertices i) (max a b) r) None (j # js)
        = foldl (\<lambda>r i. visit (face_code n_vertices i) (max a b) r)
            (Some (max a b, face_code n_vertices j, SENTINEL)) js"
    by (simp add: visit_def)
  then show ?thesis
    unfolding foldl_visit_face_filter Cons
    by (simp only: foldl_visit_Some list.case)
qed

lemma table_ok_empty: "table_ok nv (replicate nv [])"
  by (simp add: table_ok_def)

lemma lookup_edge_empty: "lookup_edge (replicate nv []) a b = None"
  by (simp add: lookup_edge_def Let_def std_find_Nil)

text \<open>
  What the builder computes on a well-formed mesh. The face row of a vertex lists the
  faces that have the vertex, in the order of their numbers. The record of an edge is
  found exactly when a face has the edge; it names the larger endpoint, the code of the
  first face that has the edge and, when further faces have it, the code of the last of
  them, the sentinel otherwise.
\<close>

theorem adjacency_table:
  assumes m: "mesh_ok n_vertices indices"
  shows "\<exists>adjFaces adjEdges.
           build_adjacency n_vertices indices = Some (adjFaces, adjEdges)
         \<and> length adjFaces = nat n_vertices \<and> table_ok (nat n_vertices) adjEdges
         \<and> (\<forall>v < nat n_vertices. adjFaces ! v
               = map of_nat (filter (\<lambda>i. face_has_vertex indices i (of_nat v))
                               [0 ..< length indices div 3]))
         \<and> (\<forall>a b. unat a < nat n_vertices \<longrightarrow> unat b < nat n_vertices \<longrightarrow>
               lookup_edge adjEdges a b
               = (case filter (\<lambda>i. face_has_edge indices i a b) [0 ..< length indices div 3] of
                    [] \<Rightarrow> None
                  | j # js \<Rightarrow> Some (max a b, face_code n_vertices j,
                       if js = [] then SENTINEL else face_code n_vertices (last js))))"
proof -
  define nv where "nv = nat n_vertices"
  have nvb: "0 \<le> n_vertices" "n_vertices \<le> INT_MAX"
    and li: "int (length indices) \<le> INT_MAX"
    and fo: "\<forall>i < length indices div 3. face_ok nv indices i"
    using m by (simp_all add: mesh_ok_def nv_def)
  have "int i \<le> INT_MAX" if "i < length indices div 3" for i
    using that li by linarith
  then have fs:
    "\<forall>i \<in> set [0 ..< length indices div 3]. face_ok nv indices i \<and> int i \<le> INT_MAX"
    using fo by auto
  from adjacency_loop_ok [OF table_ok_empty _ nv_def nvb li fs, of "replicate nv []"]
  obtain f e where s:
    "adjacency_loop n_vertices indices [0 ..< length indices div 3]
       (replicate nv [], replicate nv []) = Some (f, e)"
    "length f = nv" "table_ok nv e"
    "\<And>v. v < nv \<Longrightarrow> f ! v = replicate nv [] ! v
        @ map of_nat (filter (\<lambda>i. face_has_vertex indices i (of_nat v))
            [0 ..< length indices div 3])"
    "\<And>a b. unat a < nv \<Longrightarrow> unat b < nv \<Longrightarrow> lookup_edge e a b
        = foldl (visit_face n_vertices indices a b) (lookup_edge (replicate nv []) a b)
            [0 ..< length indices div 3]"
    by auto
  have "build_adjacency n_vertices indices = Some (f, e)"
    using s(1) by (simp add: build_adjacency_def nv_def)
  then show ?thesis
    using s(2-5) unfolding nv_def [symmetric] lookup_edge_empty foldl_visit_face_None
    by auto
qed

lemma row_ok_records:
  "row_ok nv v row \<Longrightarrow>
     length row = 3 * length (edge_records row)
   \<and> (\<forall>r \<in> set (edge_records row). v < unat (fst r) \<and> unat (fst r) < nv
         \<and> nv \<le> unat (fst (snd r)) \<and> nv \<le> unat (snd (snd r)))
   \<and> distinct (map fst (edge_records row))"
  by (induction nv v row rule: row_ok.induct) auto

lemma find_filter_distinct:
  "distinct (map fst rs) \<Longrightarrow> find (\<lambda>r. fst r = x) rs = Some r
   \<Longrightarrow> filter (\<lambda>r. fst r = x) rs = [r]"
proof (induction rs)
  case Nil
  then show ?case by simp
next
  case (Cons s rs)
  show ?case
  proof (cases "fst s = x")
    case True
    have "fst s \<notin> fst ` set rs" using Cons.prems(1) by simp
    then have "\<forall>t \<in> set rs. fst t \<noteq> x" unfolding True by (metis imageI)
    then have "filter (\<lambda>r. fst r = x) rs = []" by (simp add: filter_empty_conv)
    then show ?thesis using True Cons.prems(2) by simp
  next
    case False
    then show ?thesis using Cons by simp
  qed
qed

lemma lookup_edge_commute: "lookup_edge adjEdges a b = lookup_edge adjEdges b a"
  by (simp add: lookup_edge_def min.commute max.commute)

text \<open>
  C9. On a mesh whose faces have three distinct vertices of the mesh, the builder runs
  through, and in the table it returns every row consists of whole records, and every
  record in the row of a vertex \<open>v\<close> names an other endpoint above \<open>v\<close>: the edge is
  stored with its smaller endpoint, \<open>v\<close> is that endpoint, and no row holds an edge whose
  smaller endpoint is another vertex.
\<close>

theorem edges_stored_at_min_endpoint:
  assumes m: "mesh_ok n_vertices indices"
  shows "\<exists>adjFaces adjEdges.
           build_adjacency n_vertices indices = Some (adjFaces, adjEdges)
         \<and> length adjEdges = nat n_vertices
         \<and> (\<forall>v < nat n_vertices.
               length (adjEdges ! v) = 3 * length (edge_records (adjEdges ! v))
             \<and> (\<forall>r \<in> set (edge_records (adjEdges ! v)).
                   v < unat (fst r) \<and> min (of_nat v) (fst r) = of_nat v))"
proof -
  from adjacency_table [OF m] obtain adjFaces adjEdges where
    b: "build_adjacency n_vertices indices = Some (adjFaces, adjEdges)"
    and t: "table_ok (nat n_vertices) adjEdges"
    by blast
  have "n_vertices \<le> 2 ^ 31 - 1" using m by (simp add: mesh_ok_def INT_MAX_def)
  then have nvb: "nat n_vertices < 2 ^ 32" by simp
  have "length (adjEdges ! v) = 3 * length (edge_records (adjEdges ! v))
      \<and> (\<forall>r \<in> set (edge_records (adjEdges ! v)).
            v < unat (fst r) \<and> min (of_nat v) (fst r) = of_nat v)"
    if v: "v < nat n_vertices" for v
  proof -
    have ok: "row_ok (nat n_vertices) v (adjEdges ! v)"
      using t v by (simp add: table_ok_def)
    have uv: "unat (of_nat v :: u32) = v"
      using v nvb by (simp add: unat_of_nat)
    have "min (of_nat v) x = of_nat v" if "v < unat x" for x :: u32
      using that uv by (simp add: min_def word_le_nat_alt)
    then show ?thesis using row_ok_records [OF ok] by auto
  qed
  then show ?thesis using b t by (auto simp: table_ok_def)
qed

lemma all_less_2: "(\<forall>i < (2::nat). P i) \<longleftrightarrow> P 0 \<and> P 1"
  by (auto simp: less_2_cases_iff)

lemma mesh_ok_quad: "mesh_ok 4 quad_indices"
  by (simp add: mesh_ok_def face_ok_def face_vertex_def quad_indices_def corner_of_def
      INT_MAX_def all_less_2)

theorem edges_stored_at_min_endpoint_witness:
  "mesh_ok 4 quad_indices
   \<and> (\<exists>adjFaces adjEdges.
           build_adjacency 4 quad_indices = Some (adjFaces, adjEdges)
         \<and> length adjEdges = nat 4
         \<and> (\<forall>v < nat 4.
               length (adjEdges ! v) = 3 * length (edge_records (adjEdges ! v))
             \<and> (\<forall>r \<in> set (edge_records (adjEdges ! v)).
                   v < unat (fst r) \<and> min (of_nat v) (fst r) = of_nat v)))"
  by (intro conjI mesh_ok_quad edges_stored_at_min_endpoint [OF mesh_ok_quad])

text \<open>The table of the quad, computed.\<close>

lemma quad_adjacency_example:
  "build_adjacency 4 quad_indices
   = Some ([[0], [0, 1], [0, 1], [1]],
           [[1, 4, SENTINEL, 2, 4, SENTINEL], [2, 4, 5, 3, 5, SENTINEL], [3, 5, SENTINEL], []])"
  by code_simp

lemma face_has_edge_bounds:
  assumes "face_ok nv indices i" "face_has_edge indices i p q"
  shows "unat p < nv" "unat q < nv" "p \<noteq> q"
  using assms by (auto simp: face_ok_def face_has_edge_def same_edge_iff doubleton_eq_iff)

text \<open>
  C7. Two faces over four vertices that both have the edge between \<open>p\<close> and \<open>q\<close>: the
  table holds exactly one record for that edge, in the row of the smaller endpoint; its
  face slots hold 4 and 5, the ids 0 and 1 of the two faces offset by the vertex count,
  so no sentinel is left in it; and looking the edge up as \<open>(p, q)\<close> or as \<open>(q, p)\<close>
  finds that same record.
\<close>

theorem shared_edge_record:
  assumes m: "mesh_ok 4 indices" and l: "length indices = 6"
    and e: "face_has_edge indices 0 p q" "face_has_edge indices 1 p q"
  shows "\<exists>adjFaces adjEdges.
           build_adjacency 4 indices = Some (adjFaces, adjEdges)
         \<and> lookup_edge adjEdges p q = Some (max p q, 4, 5)
         \<and> lookup_edge adjEdges q p = Some (max p q, 4, 5)
         \<and> filter (\<lambda>r. fst r = max p q) (edge_records (adjEdges ! unat (min p q)))
             = [(max p q, 4, 5)]
         \<and> (\<forall>v < 4. \<forall>r \<in> set (edge_records (adjEdges ! v)).
               same_edge p q (of_nat v) (fst r) \<longrightarrow> v = unat (min p q))"
proof -
  have f0: "face_ok 4 indices 0" and f1: "face_ok 4 indices 1"
    using m l by (simp_all add: mesh_ok_def)
  note pq = face_has_edge_bounds [OF f0 e(1)]
  from adjacency_table [OF m] obtain adjFaces adjEdges where
    b: "build_adjacency 4 indices = Some (adjFaces, adjEdges)"
    and t: "table_ok 4 adjEdges"
    and look: "\<And>a b. unat a < 4 \<Longrightarrow> unat b < 4 \<Longrightarrow>
       lookup_edge adjEdges a b
       = (case filter (\<lambda>i. face_has_edge indices i a b) [0 ..< length indices div 3] of
            [] \<Rightarrow> None
          | j # js \<Rightarrow> Some (max a b, face_code 4 j,
               if js = [] then SENTINEL else face_code 4 (last js)))"
    by auto
  have up: "[0 ..< length indices div 3] = [0, 1]"
    using l by (simp add: upt_rec)
  have lpq: "lookup_edge adjEdges p q = Some (max p q, 4, 5)"
    unfolding look [OF pq(1,2)] up using e by (simp add: face_code_def)
  have m4: "unat (min p q) < 4" "unat (max p q) < 4"
    using pq by (simp_all add: min_def max_def)
  have ok: "row_ok 4 (unat (min p q)) (adjEdges ! unat (min p q))"
    using t m4 by (simp add: table_ok_def)
  have "find (\<lambda>r. fst r = max p q) (edge_records (adjEdges ! unat (min p q)))
        = Some (max p q, 4, 5)"
    using lpq unfolding lookup_edge_records [OF t pq(1,2)] .
  then have one: "filter (\<lambda>r. fst r = max p q) (edge_records (adjEdges ! unat (min p q)))
        = [(max p q, 4, 5)]"
    using row_ok_records [OF ok] by (intro find_filter_distinct) simp_all
  have only: "v = unat (min p q)"
    if v: "v < 4" and r: "r \<in> set (edge_records (adjEdges ! v))"
      and s: "same_edge p q (of_nat v) (fst r)" for v r
  proof -
    have okv: "row_ok 4 v (adjEdges ! v)" using t v by (simp add: table_ok_def)
    have lt: "v < unat (fst r)" using row_ok_records [OF okv] r by blast
    have uv: "unat (of_nat v :: u32) = v" using v by (simp add: unat_of_nat)
    have "min (of_nat v) (fst r) = (of_nat v :: u32)"
      using lt uv by (simp add: min_def word_le_nat_alt)
    then have "min p q = of_nat v" using s by (simp add: same_edge_def)
    then show ?thesis using uv by simp
  qed
  show ?thesis
    using b lpq lookup_edge_commute [of adjEdges q p] one only by auto
qed

theorem shared_edge_record_witness:
  "mesh_ok 4 quad_indices \<and> length quad_indices = 6
   \<and> face_has_edge quad_indices 0 2 1 \<and> face_has_edge quad_indices 1 2 1
   \<and> (\<exists>adjFaces adjEdges.
           build_adjacency 4 quad_indices = Some (adjFaces, adjEdges)
         \<and> lookup_edge adjEdges 2 1 = Some (max 2 1, 4, 5)
         \<and> lookup_edge adjEdges 1 2 = Some (max 2 1, 4, 5)
         \<and> filter (\<lambda>r. fst r = max 2 1) (edge_records (adjEdges ! unat (min 2 1 :: u32)))
             = [(max 2 1, 4, 5)]
         \<and> (\<forall>v < 4. \<forall>r \<in> set (edge_records (adjEdges ! v)).
               same_edge 2 1 (of_nat v) (fst r) \<longrightarrow> v = unat (min 2 1 :: u32)))"
proof -
  have l: "length quad_indices = 6" by (simp add: quad_indices_def)
  have e: "face_has_edge quad_indices 0 2 1" "face_has_edge quad_indices 1 2 1"
    by (simp_all add: face_has_edge_def face_vertex_def quad_indices_def corner_of_def
        same_edge_def)
  show ?thesis
    by (intro conjI mesh_ok_quad l e shared_edge_record [OF mesh_ok_quad l e])
qed

lemma unat_less_3:
  fixes a :: u32
  assumes "unat a < 3"
  shows "a = 0 \<or> a = 1 \<or> a = 2"
proof -
  have "unat a = 0 \<or> unat a = 1 \<or> unat a = 2" using assms by linarith
  then show ?thesis by (auto simp: word_unat_eq_iff)
qed

lemma single_triangle_eval:
  assumes "word_of_int (vertex_index c0) = (a :: u32)"
    "word_of_int (vertex_index c1) = (b :: u32)"
    "word_of_int (vertex_index c2) = (c :: u32)"
  shows "build_adjacency 3 [c0, c1, c2]
       = Option.bind (push_back_at [[], [], []] a [0]) (\<lambda>f0.
         Option.bind (push_back_at f0 b [0]) (\<lambda>f1.
         Option.bind (push_back_at f1 c [0]) (\<lambda>f2.
         Option.bind (add_edge 3 0 [[], [], []] a b) (\<lambda>e0.
         Option.bind (add_edge 3 0 e0 a c) (\<lambda>e1.
         Option.bind (add_edge 3 0 e1 b c) (\<lambda>e2. Some (f2, e2)))))))"
proof -
  have r: "replicate (nat 3) ([] :: u32 list) = [[], [], []]"
    by (simp add: numeral_3_eq_3)
  have u: "[0 ..< length [c0, c1, c2] div 3] = [0]"
    by simp
  show ?thesis
    unfolding build_adjacency_def r u
    using assms by (simp add: add_face_def vec_get_def split: option.split)
qed

lemmas adj_eval = push_back_at_def add_edge_def std_find_def SENTINEL_def

text \<open>
  C3, as the code has it. For a mesh of one triangle over the vertices 0, 1 and 2, in any
  order of its corners: every vertex has exactly one incident face id, the face 0; the
  three edge records are stored once each, with the smaller endpoint of the edge, so that
  the row of vertex 0 holds the records of the edges to 1 and to 2 (in the order in which
  the corners name them), the row of vertex 1 the record of the edge to 2, and the row of
  vertex 2 none; and every record has the face code 3 in its first face slot and the
  sentinel in its second.
\<close>

theorem single_triangle_adjacency:
  assumes m: "mesh_ok 3 indices" and l: "length indices = 3"
  shows "\<exists>adjFaces adjEdges.
           build_adjacency 3 indices = Some (adjFaces, adjEdges)
         \<and> adjFaces = [[0], [0], [0]]
         \<and> (adjEdges = [[1, 3, SENTINEL, 2, 3, SENTINEL], [2, 3, SENTINEL], []]
            \<or> adjEdges = [[2, 3, SENTINEL, 1, 3, SENTINEL], [2, 3, SENTINEL], []])
         \<and> set (edge_records (adjEdges ! 0)) = {(1, 3, SENTINEL), (2, 3, SENTINEL)}
         \<and> edge_records (adjEdges ! 1) = [(2, 3, SENTINEL)]
         \<and> edge_records (adjEdges ! 2) = []
         \<and> map (\<lambda>row. length (edge_records row)) adjEdges = [2, 1, 0]
         \<and> (\<forall>row \<in> set adjEdges. \<forall>r \<in> set (edge_records row). snd r = (3, SENTINEL))"
proof -
  obtain c0 c1 c2 where i: "indices = [c0, c1, c2]"
    using l by (auto simp: length_Suc_conv numeral_3_eq_3)
  define a :: u32 where "a = word_of_int (vertex_index c0)"
  define b :: u32 where "b = word_of_int (vertex_index c1)"
  define c :: u32 where "c = word_of_int (vertex_index c2)"
  have "face_ok 3 indices 0" using m l by (simp add: mesh_ok_def)
  then have u: "unat a < 3" "unat b < 3" "unat c < 3" and d: "a \<noteq> b" "a \<noteq> c" "b \<noteq> c"
    by (simp_all add: face_ok_def face_vertex_def i a_def b_def c_def)
  note ev = single_triangle_eval [OF a_def [symmetric] b_def [symmetric] c_def [symmetric]]
  consider "a = 0" "b = 1" "c = 2" | "a = 0" "b = 2" "c = 1"
    | "a = 1" "b = 0" "c = 2" | "a = 1" "b = 2" "c = 0"
    | "a = 2" "b = 0" "c = 1" | "a = 2" "b = 1" "c = 0"
    using unat_less_3 [OF u(1)] unat_less_3 [OF u(2)] unat_less_3 [OF u(3)] d by blast
  then show ?thesis
  proof cases
    case 1 then show ?thesis unfolding i ev by (auto simp: adj_eval)
  next
    case 2 then show ?thesis unfolding i ev by (auto simp: adj_eval)
  next
    case 3 then show ?thesis unfolding i ev by (auto simp: adj_eval)
  next
    case 4 then show ?thesis unfolding i ev by (auto simp: adj_eval)
  next
    case 5 then show ?thesis unfolding i ev by (auto simp: adj_eval)
  next
    case 6 then show ?thesis unfolding i ev by (auto simp: adj_eval)
  qed
qed

lemma mesh_ok_triangle: "mesh_ok 3 (map corner_of [0, 1, 2])"
  by (simp add: mesh_ok_def face_ok_def face_vertex_def corner_of_def INT_MAX_def)

theorem single_triangle_adjacency_witness:
  "mesh_ok 3 (map corner_of [0, 1, 2]) \<and> length (map corner_of [0, 1, 2]) = 3
   \<and> (\<exists>adjFaces adjEdges.
           build_adjacency 3 (map corner_of [0, 1, 2]) = Some (adjFaces, adjEdges)
         \<and> adjFaces = [[0], [0], [0]]
         \<and> (adjEdges = [[1, 3, SENTINEL, 2, 3, SENTINEL], [2, 3, SENTINEL], []]
            \<or> adjEdges = [[2, 3, SENTINEL, 1, 3, SENTINEL], [2, 3, SENTINEL], []])
         \<and> set (edge_records (adjEdges ! 0)) = {(1, 3, SENTINEL), (2, 3, SENTINEL)}
         \<and> edge_records (adjEdges ! 1) = [(2, 3, SENTINEL)]
         \<and> edge_records (adjEdges ! 2) = []
         \<and> map (\<lambda>row. length (edge_records row)) adjEdges = [2, 1, 0]
         \<and> (\<forall>row \<in> set adjEdges. \<forall>r \<in> set (edge_records row). snd r = (3, SENTINEL)))"
proof -
  have l: "length (map corner_of [0, 1, 2]) = 3" by simp
  show ?thesis
    by (intro conjI mesh_ok_triangle l single_triangle_adjacency [OF mesh_ok_triangle l])
qed

text \<open>
  C3, as the claim states it, fails on the triangle with the corners 0, 1, 2: the rows of
  the vertices 1 and 2 hold one record and no record, not two each.
\<close>

theorem single_triangle_counterexample:
  "build_adjacency 3 (map corner_of [0, 1, 2])
     = Some ([[0], [0], [0]],
             [[1, 3, SENTINEL, 2, 3, SENTINEL], [2, 3, SENTINEL], []])
   \<and> length (edge_records [1, 3, SENTINEL, 2, 3, SENTINEL]) = 2
   \<and> length (edge_records [2, 3, SENTINEL]) = 1
   \<and> length (edge_records []) = 0"
proof -
  have "build_adjacency 3 (map corner_of [0, 1, 2])
     = Some ([[0], [0], [0]],
             [[1, 3, SENTINEL, 2, 3, SENTINEL], [2, 3, SENTINEL], []])"
    unfolding list.map
    by (subst single_triangle_eval [of _ 0 _ 1 _ 2]) (simp_all add: corner_of_def adj_eval)
  then show ?thesis by simp
qed

text \<open>The same table as lines 663-673 lay it out in \<open>offsets\<close> and \<open>meta\<close>.\<close>

lemma single_triangle_serialized:
  "serialize ([[0], [0], [0]], [[1, 3, SENTINEL, 2, 3, SENTINEL], [2, 3, SENTINEL], []])
   = ([0, 2, 4, 6, 13, 17],
      [1, 0, 1, 0, 1, 0, 6, 1, 3, SENTINEL, 2, 3, SENTINEL, 3, 2, 3, SENTINEL, 0])"
  by (simp add: serialize_def)

end
